theory Spec2Isabelle
  imports Main
begin

unbundle bit_operations_syntax

section \<open>JavaScript values and operators used by IpSubnetCalculator\<close>

text \<open>
  The library receives addresses either as strings or as numbers.  A number is modelled
  by its integral value; every number that is not integral (a fraction, NaN, an infinity)
  and every value that is neither a string nor a number (null, an object, a boolean) is
  rejected by both \<open>isIp\<close> and \<open>isDecimalIp\<close> in the same way and is the constructor
  \<open>JOther\<close>.

  JavaScript numbers are doubles, which are exact on integers up to \<open>2 ^ 53\<close>.  For
  valid addresses and prefix sizes from 0 to 32 every number that the library computes is
  below \<open>2 ^ 33\<close>, so there its arithmetic is arithmetic on \<open>int\<close>.  The private
  functions \<open>getPrefixMask\<close>, \<open>getMask\<close> and \<open>getMaskRange\<close> are embedded in this
  way first; \<open>getOptimalRange\<close> and \<open>calculateCIDRPrefix\<close> call them with prefix sizes
  from 0 to 32 only.  \<open>calculateSubnetMask\<close> passes on the prefix size of its caller
  unchecked; for it the same three functions are embedded a second time with the rounding
  of doubles written out (\<open>getPrefixMask_double\<close>, \<open>getMask_double\<close>,
  \<open>getMaskRange_double\<close>), and the two embeddings are proved equal on the prefix sizes
  from 0 to 32 (\<open>getMaskRange_double_exact\<close>).
\<close>

datatype jsval = JStr string | JNum int | JOther

text \<open>\<open>new Error( 'Not an IP address: ' + v )\<close> and
  \<open>new Error( 'Not a numeric IP address: ' + v )\<close>.\<close>

datatype error = NotAnIpAddress jsval | NotANumericIpAddress jsval

text \<open>The conversions ToInt32 and ToUint32 that the bitwise operators apply to their
  operands and results.\<close>

definition ToInt32 :: "int \<Rightarrow> int" where
  "ToInt32 x = signed_take_bit 31 x"

definition ToUint32 :: "int \<Rightarrow> int" where
  "ToUint32 x = take_bit 32 x"

text \<open>\<open>a & b\<close>: both operands as signed 32-bit integers, the result a signed 32-bit
  integer.\<close>

definition js_and :: "int \<Rightarrow> int \<Rightarrow> int" where
  "js_and a b = ToInt32 a AND ToInt32 b"

text \<open>\<open>a << k\<close>: the shift count is taken modulo 32, the result is a signed 32-bit
  integer.\<close>

definition js_shl :: "int \<Rightarrow> int \<Rightarrow> int" where
  "js_shl a k = ToInt32 (push_bit (nat (ToUint32 k mod 32)) (ToInt32 a))"

text \<open>\<open>x >>> 0\<close>: the value as an unsigned 32-bit integer.\<close>

definition js_ushr0 :: "int \<Rightarrow> int" where
  "js_ushr0 x = ToUint32 x"

section \<open>Strings of decimal digits\<close>

definition is_digit :: "char \<Rightarrow> bool" where
  "is_digit c = (c \<in> set ''0123456789'')"

definition digit_value :: "char \<Rightarrow> int" where
  "digit_value c = int (of_char c) - 48"

text \<open>\<open>parseInt( s, 10 )\<close> and the unary \<open>+s\<close> on a string of ASCII digits: its decimal
  value.  Both are only applied to strings that the regular expression of \<open>isIp\<close> has
  accepted.\<close>

definition decimal_value :: "string \<Rightarrow> int" where
  "decimal_value s = foldl (\<lambda>acc c. acc * 10 + digit_value c) 0 s"

definition digit_char :: "nat \<Rightarrow> char" where
  "digit_char n = ''0123456789'' ! n"

text \<open>The string that JavaScript gives a non-negative integral number when it is
  concatenated with a string: its decimal digits with no leading zero.\<close>

fun decimal_string :: "nat \<Rightarrow> string" where
  "decimal_string n =
     (if n < 10 then [digit_char n] else decimal_string (n div 10) @ [digit_char (n mod 10)])"

declare decimal_string.simps [simp del]

definition number_to_string :: "int \<Rightarrow> string" where
  "number_to_string n =
     (if n < 0 then CHR ''-'' # decimal_string (nat (- n)) else decimal_string (nat n))"

text \<open>\<open>s.split( '.' )\<close>: the fields between the dots; a string with no dot is one
  field.\<close>

fun split_dot :: "string \<Rightarrow> string list" where
  "split_dot [] = [[]]"
| "split_dot (c # cs) =
     (if c = CHR ''.'' then [] # split_dot cs
      else (let r = split_dot cs in (c # hd r) # tl r))"

text \<open>The regular expression
  \<^verbatim>\<open>/^([0-9]{1,3})\.([0-9]{1,3})\.([0-9]{1,3})\.([0-9]{1,3})$/\<close>: a string matches
  exactly when it consists of four fields of one to three ASCII digits separated by
  single dots; the match holds the four fields.\<close>

definition match_ip :: "string \<Rightarrow> string list option" where
  "match_ip s =
     (let parts = split_dot s
      in if length parts = 4
            \<and> list_all (\<lambda>p. 1 \<le> length p \<and> length p \<le> 3 \<and> list_all is_digit p) parts
         then Some parts else None)"

section \<open>The library\<close>

subsection \<open>isIp, isDecimalIp, toDecimal, toString\<close>

definition isIp :: "jsval \<Rightarrow> bool" where
  "isIp ip =
     (case ip of
        JStr s \<Rightarrow>
          (case match_ip s of
             None \<Rightarrow> False
           | Some parts \<Rightarrow>
               list_all (\<lambda>p. let n = decimal_value p in \<not> (n > 255 \<or> n < 0)) parts)
      | _ \<Rightarrow> False)"

definition isDecimalIp :: "jsval \<Rightarrow> bool" where
  "isDecimalIp ipNum =
     (case ipNum of JNum n \<Rightarrow> n \<ge> 0 \<and> n \<le> 4294967295 | _ \<Rightarrow> False)"

definition toDecimal :: "jsval \<Rightarrow> error + int" where
  "toDecimal ipString =
     (case ipString of
        JNum n \<Rightarrow>
          if isDecimalIp ipString then Inr n else Inl (NotAnIpAddress ipString)
      | JStr s \<Rightarrow>
          if \<not> isIp ipString then Inl (NotAnIpAddress ipString)
          else (let d = split_dot s
                in Inr (((decimal_value (d ! 0) * 256 + decimal_value (d ! 1)) * 256
                          + decimal_value (d ! 2)) * 256 + decimal_value (d ! 3)))
      | JOther \<Rightarrow> Inl (NotAnIpAddress ipString))"

text \<open>The loop of \<open>toString\<close>: \<open>i\<close> counts the remaining rounds (three at the
  start).\<close>

fun toString_loop :: "nat \<Rightarrow> int \<Rightarrow> string \<Rightarrow> string" where
  "toString_loop 0 ipNum d = d"
| "toString_loop (Suc i) ipNum d =
     (let ipNum' = ipNum div 256
      in toString_loop i ipNum' (number_to_string (ipNum' mod 256) @ ''.'' @ d))"

definition toString :: "jsval \<Rightarrow> error + string" where
  "toString ipNum =
     (case ipNum of
        JStr s \<Rightarrow> if isIp ipNum then Inr s else Inl (NotANumericIpAddress ipNum)
      | JNum n \<Rightarrow>
          if \<not> isDecimalIp ipNum then Inl (NotANumericIpAddress ipNum)
          else Inr (toString_loop 3 n (number_to_string (n mod 256)))
      | JOther \<Rightarrow> Inl (NotANumericIpAddress ipNum))"

subsection \<open>getPrefixMask, getMask\<close>

text \<open>The two loops \<open>for( i = 0; i < n; i++ ) mask += ...\<close>; the accumulator \<open>acc\<close>
  is the variable \<open>mask\<close> of the source, and \<open>pSize\<close> its parameter
  \<open>prefixSize\<close>.  Counter and sum are exact as long as they stay below \<open>2 ^ 53\<close>,
  as they do for the sizes from 0 to 32 that the library itself passes.\<close>

function getPrefixMask_loop :: "int \<Rightarrow> int \<Rightarrow> int \<Rightarrow> int" where
  "getPrefixMask_loop pSize i acc =
     (if i < pSize
      then getPrefixMask_loop pSize (i + 1) (acc + js_ushr0 (js_shl 1 (32 - (i + 1))))
      else acc)"
  by pat_completeness auto
termination
  by (relation "measure (\<lambda>(pSize, i, acc). nat (pSize - i))") auto

declare getPrefixMask_loop.simps [simp del]

definition getPrefixMask :: "int \<Rightarrow> int" where
  "getPrefixMask pSize = getPrefixMask_loop pSize 0 0"

function getMask_loop :: "int \<Rightarrow> int \<Rightarrow> int \<Rightarrow> int" where
  "getMask_loop maskSize i acc =
     (if i < maskSize
      then getMask_loop maskSize (i + 1) (acc + js_ushr0 (js_shl 1 i))
      else acc)"
  by pat_completeness auto
termination
  by (relation "measure (\<lambda>(maskSize, i, acc). nat (maskSize - i))") auto

declare getMask_loop.simps [simp del]

definition getMask :: "int \<Rightarrow> int" where
  "getMask maskSize = getMask_loop maskSize 0 0"

subsection \<open>getMaskRange\<close>

record block =
  ipLow :: int
  ipLowStr :: string
  ipHigh :: int
  ipHighStr :: string
  prefixMask :: int
  prefixMaskStr :: string
  prefixSize :: int
  invertedMask :: int
  invertedMaskStr :: string
  invertedSize :: int

text \<open>The fields of the object literal are evaluated in order; the first \<open>toString\<close>
  that throws ends the call.\<close>

definition getMaskRange :: "int \<Rightarrow> int \<Rightarrow> error + block" where
  "getMaskRange ipNum pSize =
     (let pMask = getPrefixMask pSize;
          lowMask = getMask (32 - pSize);
          low = js_ushr0 (js_and ipNum pMask);
          high = js_ushr0 (js_ushr0 (js_and ipNum pMask) + lowMask)
      in case toString (JNum low) of Inl e \<Rightarrow> Inl e | Inr lowStr \<Rightarrow>
         case toString (JNum high) of Inl e \<Rightarrow> Inl e | Inr highStr \<Rightarrow>
         case toString (JNum pMask) of Inl e \<Rightarrow> Inl e | Inr pMaskStr \<Rightarrow>
         case toString (JNum lowMask) of Inl e \<Rightarrow> Inl e | Inr lowMaskStr \<Rightarrow>
           Inr \<lparr> ipLow = low, ipLowStr = lowStr,
                 ipHigh = high, ipHighStr = highStr,
                 prefixMask = pMask, prefixMaskStr = pMaskStr, prefixSize = pSize,
                 invertedMask = lowMask, invertedMaskStr = lowMaskStr,
                 invertedSize = 32 - pSize \<rparr>)"

subsection \<open>getOptimalRange\<close>

text \<open>The loop \<open>for( prefixSize = 32; prefixSize >= 0; prefixSize-- )\<close> with its
  \<open>break\<close>; \<open>optimalRange\<close> is \<open>None\<close> for \<open>null\<close>.\<close>

function getOptimalRange_loop ::
    "int \<Rightarrow> int \<Rightarrow> int \<Rightarrow> block option \<Rightarrow> error + block option" where
  "getOptimalRange_loop ipNum ipEndNum pSize optimalRange =
     (if pSize \<ge> 0
      then (case getMaskRange ipNum pSize of
              Inl e \<Rightarrow> Inl e
            | Inr maskRange \<Rightarrow>
                if ipLow maskRange = ipNum \<and> ipHigh maskRange \<le> ipEndNum
                then getOptimalRange_loop ipNum ipEndNum (pSize - 1) (Some maskRange)
                else Inr optimalRange)
      else Inr optimalRange)"
  by pat_completeness auto
termination
  by (relation "measure (\<lambda>(ipNum, ipEndNum, pSize, optimalRange). nat (pSize + 1))") auto

declare getOptimalRange_loop.simps [simp del]

definition getOptimalRange :: "int \<Rightarrow> int \<Rightarrow> error + block option" where
  "getOptimalRange ipNum ipEndNum = getOptimalRange_loop ipNum ipEndNum 32 None"

text \<open>The number of candidate prefix sizes for which the loop of \<open>getOptimalRange\<close>
  calls \<open>getMaskRange\<close>: the same loop, counting its rounds.\<close>

function getOptimalRange_rounds :: "int \<Rightarrow> int \<Rightarrow> int \<Rightarrow> nat" where
  "getOptimalRange_rounds ipNum ipEndNum pSize =
     (if pSize \<ge> 0
      then (case getMaskRange ipNum pSize of
              Inl e \<Rightarrow> 1
            | Inr maskRange \<Rightarrow>
                if ipLow maskRange = ipNum \<and> ipHigh maskRange \<le> ipEndNum
                then 1 + getOptimalRange_rounds ipNum ipEndNum (pSize - 1)
                else 1)
      else 0)"
  by pat_completeness auto
termination
  by (relation "measure (\<lambda>(ipNum, ipEndNum, pSize). nat (pSize + 1))") auto

declare getOptimalRange_rounds.simps [simp del]

subsection \<open>calculate, calculateCIDRPrefix\<close>

text \<open>The loop \<open>while( ipCurNum <= ipEndNum )\<close>.  Nothing in the loop bounds the number
  of its rounds, so the result is an option: \<open>None\<close> stands for a loop that does not
  return.  Inside, \<open>Inl\<close> is an exception, \<open>Inr None\<close> the result \<open>null\<close> and
  \<open>Inr (Some bs)\<close> the array \<open>rangeCollection\<close>.\<close>

partial_function (option) calculate_loop ::
    "int \<Rightarrow> int \<Rightarrow> block list \<Rightarrow> (error + block list option) option" where
  "calculate_loop ipCurNum ipEndNum rangeCollection =
     (if ipCurNum \<le> ipEndNum
      then (case getOptimalRange ipCurNum ipEndNum of
              Inl e \<Rightarrow> Some (Inl e)
            | Inr None \<Rightarrow> Some (Inr None)
            | Inr (Some optimalRange) \<Rightarrow>
                calculate_loop (ipHigh optimalRange + 1) ipEndNum
                  (rangeCollection @ [optimalRange]))
      else Some (Inr (Some rangeCollection)))"

declare calculate_loop.simps [code]

definition calculate :: "jsval \<Rightarrow> jsval \<Rightarrow> (error + block list option) option" where
  "calculate ipStart ipEnd =
     (case toDecimal ipStart of
        Inl err \<Rightarrow> Some (Inr None)
      | Inr ipStartNum \<Rightarrow>
          (case toDecimal ipEnd of
             Inl err \<Rightarrow> Some (Inr None)
           | Inr ipEndNum \<Rightarrow>
               if ipEndNum < ipStartNum then Some (Inr None)
               else calculate_loop ipStartNum ipEndNum []))"

text \<open>The loop \<open>for( prefixSize = 0; prefixSize < 32; prefixSize++ )\<close> of
  \<open>calculateCIDRPrefix\<close>; it returns the value of \<open>prefixSize\<close> after the loop.\<close>

function calculateCIDRPrefix_loop :: "int \<Rightarrow> int \<Rightarrow> int \<Rightarrow> int" where
  "calculateCIDRPrefix_loop subnetMaskNum pSize prefix =
     (if pSize < 32
      then (let newPrefix = js_ushr0 (prefix + js_shl 1 (32 - (pSize + 1)))
            in if js_ushr0 (js_and subnetMaskNum newPrefix) \<noteq> newPrefix
               then pSize
               else calculateCIDRPrefix_loop subnetMaskNum (pSize + 1) newPrefix)
      else pSize)"
  by pat_completeness auto
termination
  by (relation "measure (\<lambda>(subnetMaskNum, pSize, prefix). nat (32 - pSize))") auto

declare calculateCIDRPrefix_loop.simps [simp del]

definition calculateCIDRPrefix :: "jsval \<Rightarrow> jsval \<Rightarrow> error + block option" where
  "calculateCIDRPrefix ip subnetMask =
     (case toDecimal ip of
        Inl err \<Rightarrow> Inr None
      | Inr ipNum \<Rightarrow>
          (case toDecimal subnetMask of
             Inl err \<Rightarrow> Inr None
           | Inr subnetMaskNum \<Rightarrow>
               (case getMaskRange ipNum (calculateCIDRPrefix_loop subnetMaskNum 0 0) of
                  Inl e \<Rightarrow> Inl e
                | Inr r \<Rightarrow> Inr (Some r))))"

section \<open>Notions used in the statements\<close>

text \<open>The test that the loop of \<open>getOptimalRange\<close> applies to a candidate prefix size:
  the block of that size around \<open>ipNum\<close> begins at \<open>ipNum\<close> and does not exceed
  \<open>ipEndNum\<close>.\<close>

definition fits :: "int \<Rightarrow> int \<Rightarrow> int \<Rightarrow> bool" where
  "fits ipNum ipEndNum pSize =
     (case getMaskRange ipNum pSize of
        Inl e \<Rightarrow> False
      | Inr maskRange \<Rightarrow> ipLow maskRange = ipNum \<and> ipHigh maskRange \<le> ipEndNum)"

text \<open>A list of blocks that begins at \<open>c\<close>, in which every block begins right after the
  one before it ends, and that ends at \<open>e\<close>.\<close>

fun covers :: "int \<Rightarrow> int \<Rightarrow> block list \<Rightarrow> bool" where
  "covers c e [] = (c = e + 1)"
| "covers c e (b # bs) =
     (ipLow b = c \<and> c \<le> ipHigh b \<and> ipHigh b \<le> e \<and> covers (ipHigh b + 1) e bs)"

text \<open>The canonical dotted-decimal form: no field has a superfluous leading zero, that
  is, every field is \<open>0\<close> or begins with a digit other than \<open>0\<close>.\<close>

definition canonical_octet :: "string \<Rightarrow> bool" where
  "canonical_octet p = (p = ''0'' \<or> (p \<noteq> [] \<and> hd p \<noteq> CHR ''0''))"

definition canonical_ip :: "string \<Rightarrow> bool" where
  "canonical_ip s = list_all canonical_octet (split_dot s)"

text \<open>The fields joined by single dots, the inverse of \<open>split_dot\<close>.\<close>

fun join_dot :: "string list \<Rightarrow> string" where
  "join_dot [] = []"
| "join_dot [p] = p"
| "join_dot (p # q # ps) = p @ ''.'' @ join_dot (q # ps)"

text \<open>The list of blocks that the loop of \<open>calculate\<close> returns from the cursor
  \<open>c\<close> when it starts with an empty collection (the empty list when it returns none).\<close>

definition blocks :: "int \<Rightarrow> int \<Rightarrow> block list" where
  "blocks c e = (case calculate_loop c e [] of Some (Inr (Some bs)) \<Rightarrow> bs | _ \<Rightarrow> [])"

section \<open>calculateSubnetMask and the arithmetic of doubles\<close>

text \<open>
  \<open>calculateSubnetMask( ip, prefixSize )\<close> hands \<open>prefixSize\<close> to \<open>getMaskRange\<close>
  without a check, so the loops of \<open>getPrefixMask\<close> and \<open>getMask\<close> may count far
  beyond \<open>2 ^ 53\<close>, where a double no longer holds every integer.  The prefix size is a
  number of the documented type \<open>{int}\<close>, given by its integral value (an \<open>int\<close> that no
  double has stands for no call); a prefix size that is not a number or not integral is not
  modelled.

  \<open>bit_length n\<close> is the number of binary digits of \<open>n\<close>, and \<open>round_double n\<close> is
  the double nearest to the integer \<open>n\<close>, the even mantissa at a tie: a double has 53
  binary digits, so an integer of \<open>L > 53\<close> digits is rounded to a multiple of
  \<open>2 ^ (L - 53)\<close>.  (Finite doubles are below \<open>2 ^ 1024\<close>; no sum or difference
  formed below leaves that range.)
\<close>

function bit_length :: "int \<Rightarrow> nat" where
  "bit_length n = (if n \<le> 0 then 0 else Suc (bit_length (n div 2)))"
  by pat_completeness auto
termination
  by (relation "measure nat") auto

declare bit_length.simps [simp del]

definition round_double :: "int \<Rightarrow> int" where
  "round_double n =
     (if \<bar>n\<bar> \<le> 2 ^ 53 then n
      else (let u = 2 ^ (bit_length \<bar>n\<bar> - 53);
                q = \<bar>n\<bar> div u;
                r = \<bar>n\<bar> mod u;
                m = (if 2 * r < u \<or> (2 * r = u \<and> even q) then q else q + 1)
            in sgn n * (m * u)))"

text \<open>\<open>a + b\<close> and \<open>a - b\<close> on doubles that hold integers.\<close>

definition js_add :: "int \<Rightarrow> int \<Rightarrow> int" where
  "js_add a b = round_double (a + b)"

definition js_sub :: "int \<Rightarrow> int \<Rightarrow> int" where
  "js_sub a b = round_double (a - b)"

text \<open>The loops of \<open>getPrefixMask\<close> and \<open>getMask\<close> once more, with \<open>i++\<close>,
  \<open>mask += ...\<close> and \<open>32 - ( i + 1 )\<close> as operations on doubles.  Once the counter
  \<open>i\<close> has reached \<open>2 ^ 53\<close>, \<open>i++\<close> leaves it unchanged, so for a larger bound the
  loop never ends: the result \<open>None\<close>.\<close>

partial_function (option) getPrefixMask_double_loop :: "int \<Rightarrow> int \<Rightarrow> int \<Rightarrow> int option" where
  "getPrefixMask_double_loop pSize i acc =
     (if i < pSize
      then getPrefixMask_double_loop pSize (js_add i 1)
             (js_add acc (js_ushr0 (js_shl 1 (js_sub 32 (js_add i 1)))))
      else Some acc)"

declare getPrefixMask_double_loop.simps [code]

definition getPrefixMask_double :: "int \<Rightarrow> int option" where
  "getPrefixMask_double pSize = getPrefixMask_double_loop pSize 0 0"

partial_function (option) getMask_double_loop :: "int \<Rightarrow> int \<Rightarrow> int \<Rightarrow> int option" where
  "getMask_double_loop maskSize i acc =
     (if i < maskSize
      then getMask_double_loop maskSize (js_add i 1) (js_add acc (js_ushr0 (js_shl 1 i)))
      else Some acc)"

declare getMask_double_loop.simps [code]

definition getMask_double :: "int \<Rightarrow> int option" where
  "getMask_double maskSize = getMask_double_loop maskSize 0 0"

text \<open>\<open>getMaskRange\<close> with these loops; \<open>None\<close> when one of them does not
  return.\<close>

definition getMaskRange_double :: "int \<Rightarrow> int \<Rightarrow> (error + block) option" where
  "getMaskRange_double ipNum pSize =
     (case getPrefixMask_double pSize of
        None \<Rightarrow> None
      | Some pMask \<Rightarrow>
          (case getMask_double (js_sub 32 pSize) of
             None \<Rightarrow> None
           | Some lowMask \<Rightarrow>
               Some (let low = js_ushr0 (js_and ipNum pMask);
                         high = js_ushr0 (js_add (js_ushr0 (js_and ipNum pMask)) lowMask)
                     in case toString (JNum low) of Inl e \<Rightarrow> Inl e | Inr lowStr \<Rightarrow>
                        case toString (JNum high) of Inl e \<Rightarrow> Inl e | Inr highStr \<Rightarrow>
                        case toString (JNum pMask) of Inl e \<Rightarrow> Inl e | Inr pMaskStr \<Rightarrow>
                        case toString (JNum lowMask) of Inl e \<Rightarrow> Inl e | Inr lowMaskStr \<Rightarrow>
                          Inr \<lparr> ipLow = low, ipLowStr = lowStr,
                                ipHigh = high, ipHighStr = highStr,
                                prefixMask = pMask, prefixMaskStr = pMaskStr,
                                prefixSize = pSize,
                                invertedMask = lowMask, invertedMaskStr = lowMaskStr,
                                invertedSize = js_sub 32 pSize \<rparr>)))"

text \<open>\<open>calculateSubnetMask\<close>: \<open>None\<close> when the call does not return,
  \<open>Some (Inl e)\<close> for an exception, \<open>Some (Inr None)\<close> for the result \<open>null\<close> and
  \<open>Some (Inr (Some r))\<close> for a block.\<close>

definition calculateSubnetMask :: "jsval \<Rightarrow> int \<Rightarrow> (error + block option) option" where
  "calculateSubnetMask ip pSize =
     (case toDecimal ip of
        Inl err \<Rightarrow> Some (Inr None)
      | Inr ipNum \<Rightarrow>
          (case getMaskRange_double ipNum pSize of
             None \<Rightarrow> None
           | Some (Inl e) \<Rightarrow> Some (Inl e)
           | Some (Inr r) \<Rightarrow> Some (Inr (Some r))))"

section \<open>Bit masks and the block of a prefix size\<close>

lemma shl1_value: "js_ushr0 (js_shl 1 k) = 2 ^ nat (k mod 32)"
proof -
  have m: "take_bit 32 k mod 32 = k mod 32"
    by (simp add: take_bit_eq_mod mod_mod_cancel)
  have lt: "nat (k mod 32) < 32" by simp
  have one: "signed_take_bit 31 (1::int) = 1" by simp
  have "take_bit 32 (signed_take_bit 31 (push_bit (nat (k mod 32)) (1::int))) =
        take_bit 32 (push_bit (nat (k mod 32)) (1::int))"
    by (simp add: take_bit_signed_take_bit)
  also have "\<dots> = 2 ^ nat (k mod 32)"
    using lt by (simp add: push_bit_eq_mult take_bit_int_eq_self)
  finally show ?thesis
    by (simp add: js_ushr0_def js_shl_def ToInt32_def ToUint32_def m one)
qed

lemma getPrefixMask_loop_value:
  "0 \<le> i \<Longrightarrow> i \<le> p \<Longrightarrow> p \<le> 32 \<Longrightarrow>
   getPrefixMask_loop p i acc = acc + 2 ^ nat (32 - i) - 2 ^ nat (32 - p)"
proof (induction p i acc rule: getPrefixMask_loop.induct)
  case (1 p i acc)
  show ?case
  proof (cases "i < p")
    case True
    have e: "nat ((32 - (i + 1)) mod 32) = nat (31 - i)"
      using 1 True by simp
    have s: "(2::int) ^ nat (32 - i) = 2 * 2 ^ nat (31 - i)"
      using 1 True by (simp add: nat_diff_distrib flip: power_Suc) 
    show ?thesis
      using 1 True
      by (subst getPrefixMask_loop.simps) (simp add: shl1_value e s)
  next
    case False
    with 1 have "i = p" by simp
    then show ?thesis by (subst getPrefixMask_loop.simps) simp
  qed
qed

lemma getMask_loop_value:
  "0 \<le> i \<Longrightarrow> i \<le> m \<Longrightarrow> m \<le> 32 \<Longrightarrow>
   getMask_loop m i acc = acc + 2 ^ nat m - 2 ^ nat i"
proof (induction m i acc rule: getMask_loop.induct)
  case (1 m i acc)
  show ?case
  proof (cases "i < m")
    case True
    have e: "nat (i mod 32) = nat i"
      using 1 True by simp
    have s: "(2::int) ^ nat (i + 1) = 2 * 2 ^ nat i"
      using 1 True by (simp add: nat_add_distrib)
    show ?thesis
      using 1 True
      by (subst getMask_loop.simps) (simp add: shl1_value e s)
  next
    case False
    with 1 have "i = m" by simp
    then show ?thesis by (subst getMask_loop.simps) simp
  qed
qed

lemma getPrefixMask_value:
  "0 \<le> p \<Longrightarrow> p \<le> 32 \<Longrightarrow> getPrefixMask p = 2 ^ 32 - 2 ^ nat (32 - p)"
  using getPrefixMask_loop_value [of 0 p 0] by (simp add: getPrefixMask_def)

lemma getMask_value:
  "0 \<le> m \<Longrightarrow> m \<le> 32 \<Longrightarrow> getMask m = 2 ^ nat m - 1"
  using getMask_loop_value [of 0 m 0] by (simp add: getMask_def)

lemma js_and_unsigned: "js_ushr0 (js_and a b) = take_bit 32 a AND take_bit 32 b"
  by (simp add: js_ushr0_def js_and_def ToInt32_def ToUint32_def take_bit_signed_take_bit)

lemma and_high_bits:
  fixes a :: int
  assumes "0 \<le> a" "a < 2 ^ 32" "k \<le> 32"
  shows "a AND (2 ^ 32 - 2 ^ k) = a - a mod 2 ^ k"
proof -
  have m: "(2::int) ^ 32 - 2 ^ k = push_bit k (mask (32 - k))"
    using assms(3) by (simp add: push_bit_eq_mult mask_eq_exp_minus_1 algebra_simps flip: power_add)
  from assms have ta: "take_bit 32 a = a"
    by (simp add: take_bit_int_eq_self)
  have "take_bit 32 a AND push_bit k (mask (32 - k)) = push_bit k (drop_bit k (take_bit 32 a))"
    by (rule bit_eqI) (auto simp: bit_simps)
  then have "a AND (2 ^ 32 - 2 ^ k) = push_bit k (drop_bit k a)"
    unfolding ta m .
  also have "\<dots> = a - take_bit k a"
    using bits_ident [of k a] by simp
  finally show ?thesis
    by (simp add: take_bit_eq_mod)
qed

lemma multiple_gap:
  fixes m :: int
  assumes "0 < m" "m dvd x" "m dvd y" "x < y"
  shows "x + m \<le> y"
proof -
  from assms(2,3) obtain q r where x: "x = m * q" and y: "y = m * r"
    by (auto simp: dvd_def)
  from assms(1,4) have "q < r"
    unfolding x y by (simp add: mult_less_cancel_left_pos)
  then have "q + 1 \<le> r" by simp
  then have "m * (q + 1) \<le> m * r"
    using assms(1) by (simp add: mult_le_cancel_left_pos)
  then show ?thesis
    unfolding x y by (simp add: algebra_simps)
qed

lemma align_down:
  fixes a :: int
  assumes "0 \<le> a" "a < 2 ^ n" "k \<le> n"
  shows "0 \<le> a - a mod 2 ^ k" and "a - a mod 2 ^ k + 2 ^ k \<le> 2 ^ n"
    and "a - a mod 2 ^ k \<le> a"
proof -
  have pos: "(0::int) < 2 ^ k" by simp
  show le: "a - a mod 2 ^ k \<le> a"
    using pos_mod_sign [OF pos, of a] by simp
  show "0 \<le> a - a mod 2 ^ k"
    using assms(1) pos by (simp add: zmod_le_nonneg_dividend)
  have d1: "(2::int) ^ k dvd a - a mod 2 ^ k"
    by (simp add: minus_mod_eq_mult_div)
  have d2: "(2::int) ^ k dvd 2 ^ n"
    using assms(3) by (rule le_imp_power_dvd)
  show "a - a mod 2 ^ k + 2 ^ k \<le> 2 ^ n"
    using pos d1 d2 by (rule multiple_gap) (use le assms(2) in linarith)
qed

lemma toString_number:
  "0 \<le> n \<Longrightarrow> n \<le> 4294967295 \<Longrightarrow>
   toString (JNum n) = Inr (toString_loop 3 n (number_to_string (n mod 256)))"
  by (simp add: toString_def isDecimalIp_def)


lemma getMaskRange_fields:
  assumes a: "0 \<le> a" "a < 2 ^ 32" and p: "0 \<le> p" "p \<le> 32"
  shows "\<exists>r. getMaskRange a p = Inr r
           \<and> ipLow r = a - a mod 2 ^ nat (32 - p)
           \<and> ipHigh r = a - a mod 2 ^ nat (32 - p) + 2 ^ nat (32 - p) - 1
           \<and> prefixMask r = 2 ^ 32 - 2 ^ nat (32 - p)
           \<and> invertedMask r = 2 ^ nat (32 - p) - 1
           \<and> prefixSize r = p
           \<and> invertedSize r = 32 - p"
proof -
  define k where "k = nat (32 - p)"
  define low where "low = a - a mod 2 ^ k"
  define K :: int where "K = 2 ^ k"
  define N :: int where "N = 2 ^ 32"
  have k: "k \<le> 32" using p by (simp add: k_def)
  have Kpos: "0 < K" by (simp add: K_def)
  have pm: "getPrefixMask p = N - K"
    using p by (simp add: getPrefixMask_value k_def K_def N_def)
  have lm: "getMask (32 - p) = K - 1"
    using p by (simp add: getMask_value k_def K_def)
  have KN: "K \<le> N"
    unfolding K_def N_def using k by (intro power_increasing) simp_all
  have tpm: "take_bit 32 (N - K) = N - K"
    using KN Kpos by (simp add: take_bit_int_eq_self N_def)
  have ta: "take_bit 32 a = a"
    using a by (simp add: take_bit_int_eq_self)
  have lowv: "js_ushr0 (js_and a (N - K)) = low"
    unfolding js_and_unsigned tpm ta unfolding low_def N_def K_def
    using and_high_bits [OF a k] .
  have lr: "0 \<le> low" "low + K \<le> N"
    unfolding low_def K_def N_def using align_down [OF a k] by simp_all
  have highv: "js_ushr0 (low + (K - 1)) = low + K - 1"
    using lr Kpos by (simp add: js_ushr0_def ToUint32_def take_bit_int_eq_self N_def)
  have Nv: "N = 4294967296" by (simp add: N_def)
  have s1: "toString (JNum low) = Inr (toString_loop 3 low (number_to_string (low mod 256)))"
    using lr Kpos Nv by (intro toString_number) simp_all
  have s2: "toString (JNum (low + K - 1)) =
      Inr (toString_loop 3 (low + K - 1) (number_to_string ((low + K - 1) mod 256)))"
    using lr Kpos Nv by (intro toString_number) simp_all
  have s3: "toString (JNum (N - K)) =
      Inr (toString_loop 3 (N - K) (number_to_string ((N - K) mod 256)))"
    using KN Kpos Nv by (intro toString_number) simp_all
  have s4: "toString (JNum (K - 1)) =
      Inr (toString_loop 3 (K - 1) (number_to_string ((K - 1) mod 256)))"
    using KN Kpos Nv by (intro toString_number) simp_all
  have "getMaskRange a p =
      Inr \<lparr> ipLow = low,
            ipLowStr = toString_loop 3 low (number_to_string (low mod 256)),
            ipHigh = low + K - 1,
            ipHighStr = toString_loop 3 (low + K - 1) (number_to_string ((low + K - 1) mod 256)),
            prefixMask = N - K,
            prefixMaskStr = toString_loop 3 (N - K) (number_to_string ((N - K) mod 256)),
            prefixSize = p,
            invertedMask = K - 1,
            invertedMaskStr = toString_loop 3 (K - 1) (number_to_string ((K - 1) mod 256)),
            invertedSize = 32 - p \<rparr>"
    by (simp add: getMaskRange_def Let_def pm lm lowv highv s1 s2 s3 s4)
  then show ?thesis
    by (simp add: low_def K_def N_def k_def)
qed

lemma mask_bits:
  assumes "k \<le> 32"
  shows "((2::int) ^ 32 - 2 ^ k) OR (2 ^ k - 1) = 2 ^ 32 - 1"
    and "((2::int) ^ 32 - 2 ^ k) AND (2 ^ k - 1) = 0"
proof -
  have m: "(2::int) ^ 32 - 2 ^ k = push_bit k (mask (32 - k))"
    using assms by (simp add: push_bit_eq_mult mask_eq_exp_minus_1 algebra_simps flip: power_add)
  have l: "(2::int) ^ k - 1 = mask k"
    by (simp add: mask_eq_exp_minus_1)
  have t: "(2::int) ^ 32 - 1 = mask 32"
    by (simp add: mask_eq_exp_minus_1)
  have "push_bit k (mask (32 - k)) OR mask k = (mask 32 :: int)"
    using assms by (intro bit_eqI) (auto simp: bit_simps)
  then show "((2::int) ^ 32 - 2 ^ k) OR (2 ^ k - 1) = 2 ^ 32 - 1"
    unfolding m l t .
  have "push_bit k (mask (32 - k)) AND mask k = (0 :: int)"
    by (intro bit_eqI) (auto simp: bit_simps)
  then show "((2::int) ^ 32 - 2 ^ k) AND (2 ^ k - 1) = 0"
    unfolding m l .
qed

lemma aligned_low_and:
  fixes a :: int
  assumes "0 \<le> a" "a < 2 ^ 32" "k \<le> 32"
  shows "(a - a mod 2 ^ k) AND (2 ^ 32 - 2 ^ k) = a - a mod 2 ^ k"
proof -
  have "(a AND (2 ^ 32 - 2 ^ k)) AND (2 ^ 32 - 2 ^ k) = a AND (2 ^ 32 - 2 ^ k)"
    by (simp only: and.assoc and.idem)
  then show ?thesis
    unfolding and_high_bits [OF assms] .
qed

lemma shl1_nonneg: "0 \<le> js_ushr0 (js_shl 1 k)"
  by (simp add: shl1_value)




lemma getPrefixMask_negative: "p < 0 \<Longrightarrow> getPrefixMask p = 0"
  unfolding getPrefixMask_def by (subst getPrefixMask_loop.simps) simp




lemma js_ushr0_range: "0 \<le> js_ushr0 x \<and> js_ushr0 x \<le> 4294967295"
proof -
  have "take_bit 32 x < (2::int) ^ 32" by (rule take_bit_int_less_exp)
  then show ?thesis by (simp add: js_ushr0_def ToUint32_def)
qed

section \<open>The search for the largest block\<close>

lemma fits_iff:
  assumes "0 \<le> a" "a < 2 ^ 32" "0 \<le> p" "p \<le> 32"
  shows "fits a e p \<longleftrightarrow> 2 ^ nat (32 - p) dvd a \<and> a + 2 ^ nat (32 - p) - 1 \<le> e"
proof -
  from getMaskRange_fields [OF assms] obtain r where
    r: "getMaskRange a p = Inr r" "ipLow r = a - a mod 2 ^ nat (32 - p)"
       "ipHigh r = a - a mod 2 ^ nat (32 - p) + 2 ^ nat (32 - p) - 1"
    by blast
  show ?thesis
    by (auto simp add: fits_def r mod_eq_0_iff_dvd)
qed

lemma fits_mono:
  assumes a: "0 \<le> a" "a < 2 ^ 32" and pq: "0 \<le> p" "p \<le> q" "q \<le> 32" and f: "fits a e p"
  shows "fits a e q"
proof -
  have le: "nat (32 - q) \<le> nat (32 - p)" using pq by simp
  have d: "(2::int) ^ nat (32 - q) dvd 2 ^ nat (32 - p)"
    using le by (rule le_imp_power_dvd)
  have s: "(2::int) ^ nat (32 - q) \<le> 2 ^ nat (32 - p)"
    using le by (intro power_increasing) simp_all
  from f have fp: "2 ^ nat (32 - p) dvd a" "a + 2 ^ nat (32 - p) - 1 \<le> e"
    using fits_iff [of a p e] a pq by simp_all
  have "2 ^ nat (32 - q) dvd a"
    using d fp(1) by (rule dvd_trans)
  moreover have "a + 2 ^ nat (32 - q) - 1 \<le> e"
    using s fp(2) by linarith
  ultimately show ?thesis
    using fits_iff [of a q e] a pq by simp
qed

lemma getOptimalRange_loop_stop:
  "\<not> 0 \<le> p \<Longrightarrow> getOptimalRange_loop a e p opt = Inr opt"
  by (subst getOptimalRange_loop.simps) simp

lemma getOptimalRange_loop_reject:
  "0 \<le> p \<Longrightarrow> getMaskRange a p = Inr m \<Longrightarrow> \<not> (ipLow m = a \<and> ipHigh m \<le> e) \<Longrightarrow>
   getOptimalRange_loop a e p opt = Inr opt"
  by (subst getOptimalRange_loop.simps) auto

lemma getOptimalRange_loop_accept:
  "0 \<le> p \<Longrightarrow> getMaskRange a p = Inr m \<Longrightarrow> ipLow m = a \<and> ipHigh m \<le> e \<Longrightarrow>
   getOptimalRange_loop a e p opt = getOptimalRange_loop a e (p - 1) (Some m)"
  by (subst getOptimalRange_loop.simps) simp

lemma getOptimalRange_loop_result:
  "0 \<le> a \<Longrightarrow> a < 2 ^ 32 \<Longrightarrow> p \<le> 32 \<Longrightarrow>
    \<exists>res. getOptimalRange_loop a e p opt = Inr res \<and>
      (if 0 \<le> p \<and> fits a e p
       then (\<exists>r. res = Some r \<and> getMaskRange a (prefixSize r) = Inr r
               \<and> 0 \<le> prefixSize r \<and> prefixSize r \<le> p
               \<and> (\<forall>q. prefixSize r \<le> q \<and> q \<le> p \<longrightarrow> fits a e q)
               \<and> (prefixSize r = 0 \<or> \<not> fits a e (prefixSize r - 1)))
       else res = opt)"
proof (induction a e p opt rule: getOptimalRange_loop.induct)
  case (1 ipNum ipEndNum pSize optimalRange)
  show ?case
  proof (cases "0 \<le> pSize")
    case False
    then show ?thesis
      by (simp add: getOptimalRange_loop_stop)
  next
    case True
    from getMaskRange_fields [OF "1.prems"(1,2) True "1.prems"(3)] obtain m where
      m: "getMaskRange ipNum pSize = Inr m" "prefixSize m = pSize"
      by blast
    show ?thesis
    proof (cases "fits ipNum ipEndNum pSize")
      case False
      then have "\<not> (ipLow m = ipNum \<and> ipHigh m \<le> ipEndNum)"
        using m by (simp add: fits_def)
      from getOptimalRange_loop_reject [OF True m(1) this] False show ?thesis
        by simp
    next
      case fit: True
      then have c: "ipLow m = ipNum \<and> ipHigh m \<le> ipEndNum"
        using m by (simp add: fits_def)
      have unf: "getOptimalRange_loop ipNum ipEndNum pSize optimalRange =
                 getOptimalRange_loop ipNum ipEndNum (pSize - 1) (Some m)"
        using True m(1) c by (rule getOptimalRange_loop_accept)
      from "1.IH" [OF True m(1) c] "1.prems"
      obtain res where res: "getOptimalRange_loop ipNum ipEndNum (pSize - 1) (Some m) = Inr res"
        and alt: "if 0 \<le> pSize - 1 \<and> fits ipNum ipEndNum (pSize - 1)
          then (\<exists>r. res = Some r \<and> getMaskRange ipNum (prefixSize r) = Inr r
               \<and> 0 \<le> prefixSize r \<and> prefixSize r \<le> pSize - 1
               \<and> (\<forall>q. prefixSize r \<le> q \<and> q \<le> pSize - 1 \<longrightarrow> fits ipNum ipEndNum q)
               \<and> (prefixSize r = 0 \<or> \<not> fits ipNum ipEndNum (prefixSize r - 1)))
          else res = Some m"
        by auto
      show ?thesis
      proof (cases "0 \<le> pSize - 1 \<and> fits ipNum ipEndNum (pSize - 1)")
        case True
        with alt obtain r where r: "res = Some r" "getMaskRange ipNum (prefixSize r) = Inr r"
          "0 \<le> prefixSize r" "prefixSize r \<le> pSize - 1"
          "\<forall>q. prefixSize r \<le> q \<and> q \<le> pSize - 1 \<longrightarrow> fits ipNum ipEndNum q"
          "prefixSize r = 0 \<or> \<not> fits ipNum ipEndNum (prefixSize r - 1)"
          by auto
        have "\<forall>q. prefixSize r \<le> q \<and> q \<le> pSize \<longrightarrow> fits ipNum ipEndNum q"
        proof (intro allI impI)
          fix q assume q: "prefixSize r \<le> q \<and> q \<le> pSize"
          show "fits ipNum ipEndNum q"
          proof (cases "q = pSize")
            case True then show ?thesis using fit by simp
          next
            case False
            with q have "q \<le> pSize - 1" by simp
            with q r(5) show ?thesis by blast
          qed
        qed
        with r show ?thesis
          using \<open>0 \<le> pSize\<close> fit unf res by auto
      next
        case False
        with alt have "res = Some m" by simp
        moreover have "pSize = 0 \<or> \<not> fits ipNum ipEndNum (pSize - 1)"
          using False \<open>0 \<le> pSize\<close> by auto
        ultimately show ?thesis
          using \<open>0 \<le> pSize\<close> fit unf res m by auto
      qed
    qed
  qed
qed

lemma fits_32:
  assumes "0 \<le> c" "c \<le> e" "e < 2 ^ 32"
  shows "fits c e 32"
  using assms fits_iff [of c 32 e] by simp

lemma getOptimalRange_result:
  assumes c: "0 \<le> c" "c \<le> e" "e < 2 ^ 32"
  shows "\<exists>r. getOptimalRange c e = Inr (Some r)
            \<and> getMaskRange c (prefixSize r) = Inr r
            \<and> 0 \<le> prefixSize r \<and> prefixSize r \<le> 32
            \<and> fits c e (prefixSize r)
            \<and> (\<forall>p. 0 \<le> p \<and> p \<le> 32 \<and> fits c e p \<longrightarrow> prefixSize r \<le> p)"
proof -
  have c32: "c < 2 ^ 32" using c by simp
  have f32: "fits c e 32" using c by (rule fits_32)
  from getOptimalRange_loop_result [OF c(1) c32, of 32 e None] f32
  obtain r where r: "getOptimalRange c e = Inr (Some r)"
      "getMaskRange c (prefixSize r) = Inr r" "0 \<le> prefixSize r" "prefixSize r \<le> 32"
      "\<forall>q. prefixSize r \<le> q \<and> q \<le> 32 \<longrightarrow> fits c e q"
      "prefixSize r = 0 \<or> \<not> fits c e (prefixSize r - 1)"
    by (auto simp: getOptimalRange_def)
  have least: "prefixSize r \<le> p" if p: "0 \<le> p" "p \<le> 32" "fits c e p" for p
  proof (rule ccontr)
    assume "\<not> prefixSize r \<le> p"
    then have lt: "p \<le> prefixSize r - 1" by simp
    have "fits c e (prefixSize r - 1)"
      using c(1) c32 p(1) lt _ p(3) by (rule fits_mono) (use r(4) in simp)
    with r(6) lt p(1) show False by auto
  qed
  from r(5) r(4) have "fits c e (prefixSize r)" by simp
  with r least show ?thesis by blast
qed

lemma getOptimalRange_step:
  assumes c: "0 \<le> c" "c \<le> e" "e < 2 ^ 32"
  shows "\<exists>r k. getOptimalRange c e = Inr (Some r)
            \<and> getMaskRange c (prefixSize r) = Inr r
            \<and> k \<le> 32 \<and> prefixSize r = 32 - int k
            \<and> ipLow r = c \<and> ipHigh r = c + 2 ^ k - 1
            \<and> 2 ^ k dvd c \<and> c + 2 ^ k - 1 \<le> e
            \<and> (k = 32 \<or> \<not> (2 ^ Suc k dvd c \<and> c + 2 ^ Suc k - 1 \<le> e))"
proof -
  have c32: "c < 2 ^ 32" using c by simp
  from getOptimalRange_result [OF c] obtain r where
    r: "getOptimalRange c e = Inr (Some r)"
       "getMaskRange c (prefixSize r) = Inr r" "0 \<le> prefixSize r" "prefixSize r \<le> 32"
       "fits c e (prefixSize r)"
       "\<forall>p. 0 \<le> p \<and> p \<le> 32 \<and> fits c e p \<longrightarrow> prefixSize r \<le> p"
    by blast
  define k where "k = nat (32 - prefixSize r)"
  have k: "k \<le> 32" "prefixSize r = 32 - int k"
    using r(3,4) by (simp_all add: k_def)
  have fk: "2 ^ k dvd c" "c + 2 ^ k - 1 \<le> e"
    using r(5) fits_iff [OF c(1) c32 r(3,4), of e] by (simp_all add: k_def)
  from getMaskRange_fields [OF c(1) c32 r(3,4)] r(2)
  have "ipLow r = c - c mod 2 ^ k" "ipHigh r = c - c mod 2 ^ k + 2 ^ k - 1"
    by (auto simp: k_def)
  with fk(1) have lh: "ipLow r = c" "ipHigh r = c + 2 ^ k - 1"
    by (simp_all add: mod_eq_0_iff_dvd [symmetric] del: dvd_imp_mod_0)
  have mx: "k = 32 \<or> \<not> (2 ^ Suc k dvd c \<and> c + 2 ^ Suc k - 1 \<le> e)"
  proof (cases "k = 32")
    case False
    with k have p: "0 \<le> prefixSize r - 1" "prefixSize r - 1 \<le> 32" by simp_all
    have "\<not> fits c e (prefixSize r - 1)"
    proof
      assume "fits c e (prefixSize r - 1)"
      with r(6) p have "prefixSize r \<le> prefixSize r - 1" by blast
      then show False by simp
    qed
    moreover have "nat (32 - (prefixSize r - 1)) = Suc k"
      using k by simp
    ultimately show ?thesis
      using fits_iff [OF c(1) c32 p, of e] by simp
  qed simp
  from r(1,2) k lh fk mx show ?thesis by blast
qed

section \<open>The decomposition loop\<close>

lemma calculate_loop_done:
  "e < c \<Longrightarrow> calculate_loop c e acc = Some (Inr (Some acc))"
  by (subst calculate_loop.simps) simp

lemma calculate_loop_step:
  "c \<le> e \<Longrightarrow> getOptimalRange c e = Inr (Some r) \<Longrightarrow>
   calculate_loop c e acc = calculate_loop (ipHigh r + 1) e (acc @ [r])"
  by (subst calculate_loop.simps) simp

lemma covers_bounds: "covers c e bs \<Longrightarrow> c \<le> e + 1"
  by (induction bs arbitrary: c) auto

lemma covers_union: "covers c e bs \<Longrightarrow> (\<Union>b\<in>set bs. {ipLow b..ipHigh b}) = {c..e}"
proof (induction bs arbitrary: c)
  case Nil
  then show ?case by simp
next
  case (Cons b bs)
  then have u: "(\<Union>x\<in>set bs. {ipLow x..ipHigh x}) = {ipHigh b + 1..e}"
    and b: "ipLow b = c" "c \<le> ipHigh b" "ipHigh b \<le> e"
    by simp_all
  have "{c..ipHigh b} \<union> {ipHigh b + 1..e} = {c..e}"
    using b by auto
  with u b show ?case by simp
qed

lemma covers_nonempty: "covers c e bs \<Longrightarrow> c \<le> e \<Longrightarrow> bs \<noteq> []"
  by (cases bs) auto

lemma covers_low_ge: "covers c e bs \<Longrightarrow> b \<in> set bs \<Longrightarrow> c \<le> ipLow b \<and> ipLow b \<le> ipHigh b \<and> ipHigh b \<le> e"
proof (induction bs arbitrary: c)
  case (Cons x xs)
  show ?case
  proof (cases "b = x")
    case True
    with Cons.prems show ?thesis by simp
  next
    case False
    with Cons.prems have "b \<in> set xs" "covers (ipHigh x + 1) e xs" "c \<le> ipHigh x" by simp_all
    with Cons.IH [of "ipHigh x + 1"] show ?thesis by simp
  qed
qed simp

lemma covers_adjacent:
  "covers c e bs \<Longrightarrow> Suc i < length bs \<Longrightarrow> ipLow (bs ! Suc i) = ipHigh (bs ! i) + 1"
proof (induction bs arbitrary: c i)
  case (Cons x xs)
  show ?case
  proof (cases i)
    case 0
    with Cons.prems show ?thesis by (cases xs) simp_all
  next
    case (Suc j)
    with Cons.prems Cons.IH [of "ipHigh x + 1" j] show ?thesis by simp
  qed
qed simp

lemma covers_ordered:
  "covers c e bs \<Longrightarrow> i < j \<Longrightarrow> j < length bs \<Longrightarrow> ipHigh (bs ! i) < ipLow (bs ! j)"
proof (induction bs arbitrary: c i j)
  case (Cons x xs)
  from Cons.prems obtain j' where j: "j = Suc j'" "j' < length xs"
    by (cases j) simp_all
  from Cons.prems have cx: "covers (ipHigh x + 1) e xs" by simp
  show ?case
  proof (cases i)
    case 0
    have "xs ! j' \<in> set xs" using j by simp
    from covers_low_ge [OF cx this] show ?thesis using 0 j by simp
  next
    case (Suc i')
    with Cons.prems j Cons.IH [OF cx, of i' j'] show ?thesis by simp
  qed
qed simp

lemma covers_hd: "covers c e bs \<Longrightarrow> bs \<noteq> [] \<Longrightarrow> ipLow (hd bs) = c"
  by (cases bs) auto

lemma covers_last: "covers c e bs \<Longrightarrow> bs \<noteq> [] \<Longrightarrow> ipHigh (last bs) = e"
proof (induction bs arbitrary: c)
  case (Cons x xs)
  show ?case
  proof (cases xs)
    case Nil
    with Cons.prems show ?thesis by simp
  next
    case (Cons y ys)
    with Cons.prems Cons.IH [of "ipHigh x + 1"] show ?thesis by simp
  qed
qed simp

lemma calculate_loop_covers:
  assumes "0 \<le> c" "c \<le> e + 1" "e < 2 ^ 32"
  shows "\<exists>bs. (\<forall>acc. calculate_loop c e acc = Some (Inr (Some (acc @ bs)))) \<and> covers c e bs
          \<and> (\<forall>b\<in>set bs. getOptimalRange (ipLow b) e = Inr (Some b))"
  using assms
proof (induction "nat (e + 1 - c)" arbitrary: c rule: less_induct)
  case less
  show ?case
  proof (cases "c \<le> e")
    case False
    with less.prems have "c = e + 1" by simp
    then have "\<forall>acc. calculate_loop c e acc = Some (Inr (Some (acc @ [])))"
      by (simp add: calculate_loop_done)
    moreover have "covers c e []" using \<open>c = e + 1\<close> by simp
    ultimately show ?thesis by (intro exI [of _ "[]"]) simp
  next
    case True
    from getOptimalRange_step [OF less.prems(1) True less.prems(3)] obtain r k where
      r: "getOptimalRange c e = Inr (Some r)" "ipLow r = c" "ipHigh r = c + 2 ^ k - 1"
         "c + 2 ^ k - 1 \<le> e"
      by blast
    have kpos: "(0::int) < 2 ^ k" by simp
    have hi: "c \<le> ipHigh r" "ipHigh r \<le> e"
      using r(3,4) kpos by simp_all
    have "nat (e + 1 - (ipHigh r + 1)) < nat (e + 1 - c)"
      using hi True by simp
    moreover have "0 \<le> ipHigh r + 1" "ipHigh r + 1 \<le> e + 1"
      using hi less.prems(1) by simp_all
    ultimately obtain bs where
      bs: "\<forall>acc. calculate_loop (ipHigh r + 1) e acc = Some (Inr (Some (acc @ bs)))"
          "covers (ipHigh r + 1) e bs"
          "\<forall>b\<in>set bs. getOptimalRange (ipLow b) e = Inr (Some b)"
      using less.hyps [of "ipHigh r + 1"] less.prems(3) by blast
    have "\<forall>acc. calculate_loop c e acc = Some (Inr (Some (acc @ r # bs)))"
      using calculate_loop_step [OF True r(1)] bs(1) by simp
    moreover have "covers c e (r # bs)"
      using r(2) hi bs(2) by simp
    moreover have "\<forall>b\<in>set (r # bs). getOptimalRange (ipLow b) e = Inr (Some b)"
      using r(1,2) bs(3) by simp
    ultimately show ?thesis by blast
  qed
qed

section \<open>Addresses as strings\<close>

lemma isIp_fields:
  assumes "isIp (JStr s)"
  shows "length (split_dot s) = 4"
    and "\<forall>i<4. 1 \<le> length (split_dot s ! i) \<and> length (split_dot s ! i) \<le> 3
            \<and> list_all is_digit (split_dot s ! i)
            \<and> 0 \<le> decimal_value (split_dot s ! i) \<and> decimal_value (split_dot s ! i) \<le> 255"
proof -
  from assms have m: "match_ip s = Some (split_dot s)"
    and v: "list_all (\<lambda>p. let n = decimal_value p in \<not> (n > 255 \<or> n < 0)) (split_dot s)"
    by (auto simp: isIp_def match_ip_def Let_def split: option.splits if_splits)
  from m show l: "length (split_dot s) = 4"
    by (simp add: match_ip_def Let_def split: if_splits)
  from m have f: "list_all (\<lambda>p. 1 \<le> length p \<and> length p \<le> 3 \<and> list_all is_digit p) (split_dot s)"
    by (simp add: match_ip_def Let_def split: if_splits)
  show "\<forall>i<4. 1 \<le> length (split_dot s ! i) \<and> length (split_dot s ! i) \<le> 3
            \<and> list_all is_digit (split_dot s ! i)
            \<and> 0 \<le> decimal_value (split_dot s ! i) \<and> decimal_value (split_dot s ! i) \<le> 255"
    using v f l by (auto simp: list_all_length Let_def)
qed

lemma toDecimal_string:
  assumes "isIp (JStr s)"
  shows "toDecimal (JStr s) =
           Inr (((decimal_value (split_dot s ! 0) * 256 + decimal_value (split_dot s ! 1)) * 256
                  + decimal_value (split_dot s ! 2)) * 256 + decimal_value (split_dot s ! 3))"
  using assms by (simp add: toDecimal_def Let_def)

lemma octets_range:
  fixes a b c d :: int
  assumes "0 \<le> a \<and> a \<le> 255" "0 \<le> b \<and> b \<le> 255" "0 \<le> c \<and> c \<le> 255" "0 \<le> d \<and> d \<le> 255"
  shows "0 \<le> ((a * 256 + b) * 256 + c) * 256 + d \<and> ((a * 256 + b) * 256 + c) * 256 + d \<le> 4294967295"
  using assms by simp

lemma toDecimal_range:
  assumes "toDecimal v = Inr n"
  shows "0 \<le> n \<and> n \<le> 4294967295"
proof (cases v)
  case (JStr s)
  with assms have ip: "isIp (JStr s)"
    by (auto simp: toDecimal_def split: if_splits)
  from isIp_fields(2) [OF ip] have
    "0 \<le> decimal_value (split_dot s ! 0) \<and> decimal_value (split_dot s ! 0) \<le> 255"
    "0 \<le> decimal_value (split_dot s ! 1) \<and> decimal_value (split_dot s ! 1) \<le> 255"
    "0 \<le> decimal_value (split_dot s ! 2) \<and> decimal_value (split_dot s ! 2) \<le> 255"
    "0 \<le> decimal_value (split_dot s ! 3) \<and> decimal_value (split_dot s ! 3) \<le> 255"
    by simp_all
  moreover from assms JStr have
    "n = ((decimal_value (split_dot s ! 0) * 256 + decimal_value (split_dot s ! 1)) * 256
                  + decimal_value (split_dot s ! 2)) * 256 + decimal_value (split_dot s ! 3)"
    using toDecimal_string [OF ip] by simp
  ultimately show ?thesis using octets_range by blast
next
  case (JNum m)
  with assms show ?thesis
    by (auto simp: toDecimal_def isDecimalIp_def split: if_splits)
next
  case JOther
  with assms show ?thesis by (simp add: toDecimal_def)
qed

lemma split_dot_nonempty: "split_dot s \<noteq> []"
  by (cases s) (simp_all add: Let_def)

lemma join_dot_Cons_Cons: "join_dot ((c # p) # ps) = c # join_dot (p # ps)"
  by (cases ps) simp_all

lemma join_dot_Nil_Cons: "ps \<noteq> [] \<Longrightarrow> join_dot ([] # ps) = CHR ''.'' # join_dot ps"
  by (cases ps) simp_all

lemma join_split_dot: "join_dot (split_dot s) = s"
proof (induction s)
  case Nil
  show ?case by simp
next
  case (Cons c cs)
  show ?case
  proof (cases "c = CHR ''.''")
    case True
    then show ?thesis
      using Cons split_dot_nonempty [of cs] by (simp add: join_dot_Nil_Cons)
  next
    case False
    have "hd (split_dot cs) # tl (split_dot cs) = split_dot cs"
      using split_dot_nonempty [of cs] by simp
    then show ?thesis
      using False Cons by (simp add: Let_def join_dot_Cons_Cons)
  qed
qed

lemma four_fields:
  assumes "length xs = 4"
  shows "xs = [xs ! 0, xs ! 1, xs ! 2, xs ! 3]"
proof -
  from assms obtain a b c d where "xs = [a, b, c, d]"
    by (auto simp: length_Suc_conv numeral_eq_Suc)
  then show ?thesis by simp
qed

lemma digit_facts:
  assumes "is_digit c"
  shows "0 \<le> digit_value c" "digit_value c \<le> 9" "digit_char (nat (digit_value c)) = c"
    "c \<noteq> CHR ''0'' \<Longrightarrow> 1 \<le> digit_value c" "c \<noteq> CHR ''.''"
  using assms by (auto simp: is_digit_def digit_value_def digit_char_def)

lemma decimal_value_snoc: "decimal_value (p @ [c]) = decimal_value p * 10 + digit_value c"
  by (simp add: decimal_value_def)

lemma decimal_value_nonneg: "list_all is_digit p \<Longrightarrow> 0 \<le> decimal_value p"
proof (induction p rule: rev_induct)
  case Nil
  show ?case by (simp add: decimal_value_def)
next
  case (snoc c p)
  then show ?case
    using digit_facts(1) [of c] by (simp add: decimal_value_snoc)
qed

lemma decimal_value_pos:
  "list_all is_digit p \<Longrightarrow> p \<noteq> [] \<Longrightarrow> hd p \<noteq> CHR ''0'' \<Longrightarrow> 1 \<le> decimal_value p"
proof (induction p rule: rev_induct)
  case Nil
  then show ?case by simp
next
  case (snoc c p)
  show ?case
  proof (cases "p = []")
    case True
    with snoc.prems digit_facts(4) [of c] show ?thesis
      by (simp add: decimal_value_def)
  next
    case False
    with snoc have "1 \<le> decimal_value p" by simp
    moreover have "0 \<le> digit_value c"
      using snoc.prems digit_facts(1) [of c] by simp
    ultimately show ?thesis
      by (simp add: decimal_value_snoc)
  qed
qed

lemma decimal_string_small: "n < 10 \<Longrightarrow> decimal_string n = [digit_char n]"
  by (subst decimal_string.simps) simp

lemma decimal_string_value:
  "list_all is_digit p \<Longrightarrow> p \<noteq> [] \<Longrightarrow> canonical_octet p \<Longrightarrow>
   decimal_string (nat (decimal_value p)) = p"
proof (induction p rule: rev_induct)
  case Nil
  then show ?case by simp
next
  case (snoc c p)
  have c: "is_digit c" using snoc.prems by simp
  note d = digit_facts [OF c]
  show ?case
  proof (cases "p = []")
    case True
    have "nat (digit_value c) < 10" using d(1,2) by simp
    then show ?thesis
      using True d(3) by (simp add: decimal_value_def decimal_string_small)
  next
    case False
    with snoc.prems have h: "hd p \<noteq> CHR ''0''" and dp: "list_all is_digit p"
      by (auto simp: canonical_octet_def)
    then have cp: "canonical_octet p"
      using False by (simp add: canonical_octet_def)
    have v: "1 \<le> decimal_value p"
      using dp False h by (rule decimal_value_pos)
    define n where "n = nat (decimal_value p * 10 + digit_value c)"
    have n: "n = nat (decimal_value p) * 10 + nat (digit_value c)"
      using v d(1) by (simp add: n_def nat_add_distrib nat_mult_distrib)
    have "\<not> n < 10" using v n by simp
    moreover have "n div 10 = nat (decimal_value p)" "n mod 10 = nat (digit_value c)"
      using n d(1,2) by simp_all
    ultimately have "decimal_string n = decimal_string (nat (decimal_value p)) @ [c]"
      using d(3) by (subst decimal_string.simps) simp
    then show ?thesis
      using snoc.IH [OF dp False cp] by (simp add: decimal_value_snoc n_def)
  qed
qed

lemma octet_div_mod:
  fixes x y :: int
  assumes "0 \<le> y \<and> y \<le> 255"
  shows "(x * 256 + y) mod 256 = y" and "(x * 256 + y) div 256 = x"
  using assms by simp_all

lemma toString_octets:
  fixes a b c d :: int
  assumes "0 \<le> a \<and> a \<le> 255" "0 \<le> b \<and> b \<le> 255" "0 \<le> c \<and> c \<le> 255" "0 \<le> d \<and> d \<le> 255"
  shows "toString (JNum (((a * 256 + b) * 256 + c) * 256 + d)) =
         Inr (join_dot [number_to_string a, number_to_string b, number_to_string c,
                        number_to_string d])"
proof -
  define n where "n = ((a * 256 + b) * 256 + c) * 256 + d"
  have r: "0 \<le> n" "n \<le> 4294967295"
    using octets_range [OF assms] by (simp_all add: n_def)
  have m0: "n mod 256 = d" and d0: "n div 256 = (a * 256 + b) * 256 + c"
    unfolding n_def using assms(4) by (rule octet_div_mod)+
  have m1: "((a * 256 + b) * 256 + c) mod 256 = c"
    and d1: "((a * 256 + b) * 256 + c) div 256 = a * 256 + b"
    using assms(3) by (rule octet_div_mod)+
  have m2: "(a * 256 + b) mod 256 = b" and d2: "(a * 256 + b) div 256 = a"
    using assms(2) by (rule octet_div_mod)+
  have m3: "a mod 256 = a"
    using assms(1) by simp
  have "toString_loop 3 n (number_to_string (n mod 256)) =
        join_dot [number_to_string a, number_to_string b, number_to_string c, number_to_string d]"
    unfolding numeral_3_eq_3 toString_loop.simps Let_def m0 d0 m1 d1 m2 d2 m3
    by simp
  then show ?thesis
    using toString_number [OF r] by (simp add: n_def)
qed

lemma digit_char_is_digit: "k < 10 \<Longrightarrow> is_digit (digit_char k)"
proof -
  assume "k < 10"
  then have "k = 0 \<or> k = 1 \<or> k = 2 \<or> k = 3 \<or> k = 4 \<or> k = 5 \<or> k = 6 \<or> k = 7 \<or> k = 8 \<or> k = 9"
    by arith
  then show ?thesis
    by (auto simp: is_digit_def digit_char_def)
qed

lemma digit_char_nonzero: "0 < k \<Longrightarrow> k < 10 \<Longrightarrow> digit_char k \<noteq> CHR ''0''"
proof -
  assume "0 < k" "k < 10"
  then have "k = 1 \<or> k = 2 \<or> k = 3 \<or> k = 4 \<or> k = 5 \<or> k = 6 \<or> k = 7 \<or> k = 8 \<or> k = 9"
    by arith
  then show ?thesis
    by (auto simp: digit_char_def)
qed

lemma decimal_string_digits: "list_all is_digit (decimal_string n)"
proof (induction n rule: decimal_string.induct)
  case (1 n)
  show ?case
  proof (cases "n < 10")
    case True
    then show ?thesis
      by (subst decimal_string.simps) (simp add: digit_char_is_digit)
  next
    case False
    with 1 show ?thesis
      by (subst decimal_string.simps) (simp add: digit_char_is_digit)
  qed
qed

lemma decimal_string_head:
  "0 < n \<Longrightarrow> decimal_string n \<noteq> [] \<and> hd (decimal_string n) \<noteq> CHR ''0''"
proof (induction n rule: decimal_string.induct)
  case (1 n)
  show ?case
  proof (cases "n < 10")
    case True
    with 1(2) show ?thesis
      by (subst (1 2) decimal_string.simps) (simp add: digit_char_nonzero)
  next
    case False
    then have "0 < n div 10" by simp
    with 1(1) [OF False] False show ?thesis
      by (subst (1 2) decimal_string.simps) simp
  qed
qed

lemma decimal_string_canonical: "canonical_octet (decimal_string n)"
proof (cases "n = 0")
  case True
  then show ?thesis
    by (subst decimal_string.simps) (simp add: canonical_octet_def digit_char_def)
next
  case False
  then show ?thesis
    using decimal_string_head [of n] by (simp add: canonical_octet_def)
qed

lemma split_dot_no_dot: "CHR ''.'' \<notin> set p \<Longrightarrow> split_dot p = [p]"
  by (induction p) (auto simp: Let_def)

lemma split_dot_field:
  "CHR ''.'' \<notin> set p \<Longrightarrow> split_dot (p @ CHR ''.'' # rest) = p # split_dot rest"
  by (induction p) (auto simp: Let_def)

lemma digits_no_dot: "list_all is_digit p \<Longrightarrow> CHR ''.'' \<notin> set p"
  using digit_facts(5) by (auto simp: list_all_iff)

lemma split_join_four:
  assumes "list_all is_digit a" "list_all is_digit b" "list_all is_digit c" "list_all is_digit d"
  shows "split_dot (join_dot [a, b, c, d]) = [a, b, c, d]"
  using assms by (simp add: split_dot_field split_dot_no_dot digits_no_dot)

lemma roundtrip_iff_canonical:
  assumes ip: "isIp (JStr s)"
  shows "\<exists>n. toDecimal (JStr s) = Inr n \<and> (toString (JNum n) = Inr s \<longleftrightarrow> canonical_ip s)"
proof -
  define p where "p = (\<lambda>i. split_dot s ! i)"
  define v where "v = (\<lambda>i. decimal_value (p i))"
  note f = isIp_fields [OF ip]
  have parts: "split_dot s = [p 0, p 1, p 2, p 3]"
    unfolding p_def using f(1) by (rule four_fields)
  have fld: "p i \<noteq> [] \<and> list_all is_digit (p i) \<and> 0 \<le> v i \<and> v i \<le> 255" if "i < 4" for i
    using f(2) that unfolding p_def v_def by auto
  have td: "toDecimal (JStr s) = Inr (((v 0 * 256 + v 1) * 256 + v 2) * 256 + v 3)"
    unfolding v_def p_def using ip by (rule toDecimal_string)
  have ts: "toString (JNum (((v 0 * 256 + v 1) * 256 + v 2) * 256 + v 3)) =
      Inr (join_dot [number_to_string (v 0), number_to_string (v 1), number_to_string (v 2),
                     number_to_string (v 3)])"
    using fld [of 0] fld [of 1] fld [of 2] fld [of 3] by (intro toString_octets) simp_all
  have nts: "number_to_string (v i) = decimal_string (nat (v i))" if "i < 4" for i
    using fld [OF that] by (simp add: number_to_string_def)
  have n4: "number_to_string (v 0) = decimal_string (nat (v 0))"
    "number_to_string (v 1) = decimal_string (nat (v 1))"
    "number_to_string (v 2) = decimal_string (nat (v 2))"
    "number_to_string (v 3) = decimal_string (nat (v 3))"
    using nts by simp_all
  have s: "s = join_dot [p 0, p 1, p 2, p 3]"
    using join_split_dot [of s] parts by simp
  have "join_dot [number_to_string (v 0), number_to_string (v 1), number_to_string (v 2),
                  number_to_string (v 3)] = s \<longleftrightarrow> canonical_ip s"
  proof
    assume "canonical_ip s"
    then have c: "canonical_octet (p i)" if "i < 4" for i
      using that parts unfolding canonical_ip_def 
      by (auto simp: less_Suc_eq numeral_eq_Suc)
    have "number_to_string (v i) = p i" if "i < 4" for i
    proof -
      have "decimal_string (nat (decimal_value (p i))) = p i"
        using fld [OF that] c [OF that] by (intro decimal_string_value) simp_all
      then show ?thesis
        using nts [OF that] by (simp add: v_def)
    qed
    then show "join_dot [number_to_string (v 0), number_to_string (v 1),
        number_to_string (v 2), number_to_string (v 3)] = s"
      using s by simp
  next
    assume eq: "join_dot [number_to_string (v 0), number_to_string (v 1),
        number_to_string (v 2), number_to_string (v 3)] = s"
    have "split_dot s = [decimal_string (nat (v 0)), decimal_string (nat (v 1)),
        decimal_string (nat (v 2)), decimal_string (nat (v 3))]"
      unfolding eq [symmetric] n4
      by (intro split_join_four decimal_string_digits)
    then show "canonical_ip s"
      unfolding canonical_ip_def
      by (simp add: decimal_string_canonical)
  qed
  with td ts show ?thesis by simp
qed

lemma digit_value_char: "k < 10 \<Longrightarrow> digit_value (digit_char k) = int k"
proof -
  assume "k < 10"
  then have "k = 0 \<or> k = 1 \<or> k = 2 \<or> k = 3 \<or> k = 4 \<or> k = 5 \<or> k = 6 \<or> k = 7 \<or> k = 8 \<or> k = 9"
    by arith
  then show ?thesis
    by (auto simp: digit_value_def digit_char_def)
qed

lemma decimal_value_string: "decimal_value (decimal_string v) = int v"
proof (induction v rule: decimal_string.induct)
  case (1 n)
  show ?case
  proof (cases "n < 10")
    case True
    then show ?thesis
      by (simp add: decimal_string_small decimal_value_def digit_value_char)
  next
    case False
    have m: "n mod 10 < 10" by simp
    have "decimal_string n = decimal_string (n div 10) @ [digit_char (n mod 10)]"
      using False by (subst decimal_string.simps) simp
    then have "decimal_value (decimal_string n) = int (n div 10) * 10 + int (n mod 10)"
      using 1 [OF False] by (simp add: decimal_value_snoc digit_value_char [OF m])
    also have "\<dots> = int n"
      by (simp add: zdiv_int zmod_int)
    finally show ?thesis .
  qed
qed

lemma decimal_value_zeros: "decimal_value (replicate k CHR ''0'' @ p) = decimal_value p"
proof (induction k)
  case 0
  show ?case by simp
next
  case (Suc k)
  have "decimal_value (CHR ''0'' # q) = decimal_value q" for q
    by (simp add: decimal_value_def digit_value_def)
  with Suc show ?case by simp
qed

lemma decimal_string_nonempty: "decimal_string v \<noteq> []"
  by (subst decimal_string.simps) simp

lemma padded_field:
  assumes "v \<le> 255" "k + length (decimal_string v) \<le> 3"
  shows "list_all is_digit (replicate k CHR ''0'' @ decimal_string v)"
    and "1 \<le> length (replicate k CHR ''0'' @ decimal_string v)"
    and "length (replicate k CHR ''0'' @ decimal_string v) \<le> 3"
    and "decimal_value (replicate k CHR ''0'' @ decimal_string v) = int v"
proof -
  have z: "is_digit CHR ''0''" by (simp add: is_digit_def)
  show "list_all is_digit (replicate k CHR ''0'' @ decimal_string v)"
    using z decimal_string_digits [of v] by (auto simp: list_all_iff)
  show "1 \<le> length (replicate k CHR ''0'' @ decimal_string v)"
    using decimal_string_nonempty [of v] by (cases "decimal_string v") simp_all
  show "length (replicate k CHR ''0'' @ decimal_string v) \<le> 3"
    using assms(2) by simp
  show "decimal_value (replicate k CHR ''0'' @ decimal_string v) = int v"
    by (simp add: decimal_value_zeros decimal_value_string)
qed

lemma isIp_four_fields:
  assumes "\<forall>p\<in>set [p0, p1, p2, p3]. list_all is_digit p \<and> 1 \<le> length p \<and> length p \<le> 3
             \<and> 0 \<le> decimal_value p \<and> decimal_value p \<le> 255"
  shows "isIp (JStr (p0 @ ''.'' @ p1 @ ''.'' @ p2 @ ''.'' @ p3))"
    and "toDecimal (JStr (p0 @ ''.'' @ p1 @ ''.'' @ p2 @ ''.'' @ p3)) =
           Inr (((decimal_value p0 * 256 + decimal_value p1) * 256 + decimal_value p2) * 256
                 + decimal_value p3)"
proof -
  have s: "split_dot (p0 @ CHR ''.'' # p1 @ CHR ''.'' # p2 @ CHR ''.'' # p3) = [p0, p1, p2, p3]"
    using split_join_four [of p0 p1 p2 p3] assms by simp
  show ip: "isIp (JStr (p0 @ ''.'' @ p1 @ ''.'' @ p2 @ ''.'' @ p3))"
    using assms by (simp add: isIp_def match_ip_def s Let_def)
  show "toDecimal (JStr (p0 @ ''.'' @ p1 @ ''.'' @ p2 @ ''.'' @ p3)) =
           Inr (((decimal_value p0 * 256 + decimal_value p1) * 256 + decimal_value p2) * 256
                 + decimal_value p3)"
    using toDecimal_string [OF ip] by (simp add: s)
qed

lemma leading_zeros_accepted:
  assumes v: "a \<le> 255" "b \<le> 255" "c \<le> 255" "d \<le> 255"
    and l: "ka + length (decimal_string a) \<le> 3" "kb + length (decimal_string b) \<le> 3"
           "kc + length (decimal_string c) \<le> 3" "kd + length (decimal_string d) \<le> 3"
  defines "s \<equiv> (replicate ka CHR ''0'' @ decimal_string a) @ ''.''
                @ (replicate kb CHR ''0'' @ decimal_string b) @ ''.''
                @ (replicate kc CHR ''0'' @ decimal_string c) @ ''.''
                @ (replicate kd CHR ''0'' @ decimal_string d)"
    and "s' \<equiv> decimal_string a @ ''.'' @ decimal_string b @ ''.'' @ decimal_string c
                @ ''.'' @ decimal_string d"
    and "n \<equiv> ((int a * 256 + int b) * 256 + int c) * 256 + int d"
  shows "isIp (JStr s) \<and> toDecimal (JStr s) = Inr n
         \<and> isIp (JStr s') \<and> canonical_ip s' \<and> toDecimal (JStr s') = Inr n
         \<and> toString (JNum n) = Inr s'
         \<and> (0 < ka + kb + kc + kd \<longrightarrow> toString (JNum n) \<noteq> Inr s)"
proof -
  note fa = padded_field [OF v(1) l(1)] and fb = padded_field [OF v(2) l(2)]
    and fc = padded_field [OF v(3) l(3)] and fd = padded_field [OF v(4) l(4)]
  have 1: "isIp (JStr s) \<and> toDecimal (JStr s) = Inr n"
    unfolding s_def n_def
    using isIp_four_fields [of "replicate ka CHR ''0'' @ decimal_string a"
        "replicate kb CHR ''0'' @ decimal_string b" "replicate kc CHR ''0'' @ decimal_string c"
        "replicate kd CHR ''0'' @ decimal_string d"] fa fb fc fd v
    by simp
  have l0: "0 + length (decimal_string a) \<le> 3" "0 + length (decimal_string b) \<le> 3"
           "0 + length (decimal_string c) \<le> 3" "0 + length (decimal_string d) \<le> 3"
    using l by simp_all
  note ga = padded_field [OF v(1) l0(1)] and gb = padded_field [OF v(2) l0(2)]
    and gc = padded_field [OF v(3) l0(3)] and gd = padded_field [OF v(4) l0(4)]
  have 2: "isIp (JStr s') \<and> toDecimal (JStr s') = Inr n"
    unfolding s'_def n_def
    using isIp_four_fields [of "decimal_string a" "decimal_string b" "decimal_string c"
        "decimal_string d"] ga gb gc gd v
    by simp
  have sp: "split_dot s' = [decimal_string a, decimal_string b, decimal_string c, decimal_string d]"
    unfolding s'_def
    using split_join_four [of "decimal_string a" "decimal_string b" "decimal_string c"
        "decimal_string d"] decimal_string_digits
    by simp
  have 3: "canonical_ip s'"
    by (simp add: canonical_ip_def sp decimal_string_canonical)
  have 4: "toString (JNum n) = Inr s'"
    unfolding n_def s'_def
    using toString_octets [of "int a" "int b" "int c" "int d"] v
    by (simp add: number_to_string_def)
  have 5: "toString (JNum n) \<noteq> Inr s" if "0 < ka + kb + kc + kd"
  proof -
    have "length s = length s' + (ka + kb + kc + kd)"
      by (simp add: s_def s'_def)
    with that have "s \<noteq> s'" by auto
    then show ?thesis by (simp add: 4)
  qed
  from 1 2 3 4 5 show ?thesis by blast
qed

lemma decimal_string_length:
  assumes "v \<le> 255"
  shows "length (decimal_string v) \<le> 3"
proof (cases "v < 10")
  case True
  then show ?thesis by (simp add: decimal_string_small)
next
  case False
  have u: "decimal_string v = decimal_string (v div 10) @ [digit_char (v mod 10)]"
    using False by (subst decimal_string.simps) simp
  show ?thesis
  proof (cases "v div 10 < 10")
    case True
    then show ?thesis by (simp add: u decimal_string_small)
  next
    case f: False
    have w: "decimal_string (v div 10) =
        decimal_string (v div 10 div 10) @ [digit_char (v div 10 mod 10)]"
      using f by (subst decimal_string.simps) simp
    have "v div 10 div 10 < 10" using assms by simp
    then show ?thesis by (simp add: u w decimal_string_small)
  qed
qed

lemma accepted_canonical:
  assumes ip: "isIp (JStr s)"
  shows "\<exists>n s'. toDecimal (JStr s) = Inr n \<and> toString (JNum n) = Inr s'
           \<and> canonical_ip s' \<and> isIp (JStr s') \<and> toDecimal (JStr s') = Inr n"
proof -
  define v where "v = (\<lambda>i. decimal_value (split_dot s ! i))"
  note f = isIp_fields [OF ip]
  have r: "0 \<le> v i \<and> v i \<le> 255" if "i < 4" for i
    using f(2) that unfolding v_def by auto
  define a b c d where "a = nat (v 0)" and "b = nat (v 1)" and "c = nat (v 2)" and "d = nat (v 3)"
  have i: "int a = v 0" "int b = v 1" "int c = v 2" "int d = v 3"
    using r [of 0] r [of 1] r [of 2] r [of 3] by (simp_all add: a_def b_def c_def d_def)
  have le: "a \<le> 255" "b \<le> 255" "c \<le> 255" "d \<le> 255"
    using r [of 0] r [of 1] r [of 2] r [of 3] unfolding a_def b_def c_def d_def by linarith+
  have l: "0 + length (decimal_string a) \<le> 3" "0 + length (decimal_string b) \<le> 3"
    "0 + length (decimal_string c) \<le> 3" "0 + length (decimal_string d) \<le> 3"
    using le by (simp_all add: decimal_string_length)
  have td: "toDecimal (JStr s) = Inr (((int a * 256 + int b) * 256 + int c) * 256 + int d)"
    unfolding i v_def using ip by (rule toDecimal_string)
  from leading_zeros_accepted [OF le l] td show ?thesis
    by blast
qed

section \<open>Prefix inference\<close>

lemma add_shl1_value: "js_ushr0 (x + js_shl 1 k) = take_bit 32 (x + 2 ^ nat (k mod 32))"
proof -
  have m: "take_bit 32 k mod 32 = k mod 32"
    by (simp add: take_bit_eq_mod mod_mod_cancel)
  have one: "signed_take_bit 31 (1::int) = 1" by simp
  have "take_bit 32 (x + signed_take_bit 31 (push_bit (nat (k mod 32)) (1::int))) =
        take_bit 32 (take_bit 32 x + take_bit 32 (signed_take_bit 31 (push_bit (nat (k mod 32)) (1::int))))"
    by (simp only: take_bit_add)
  also have "\<dots> = take_bit 32 (take_bit 32 x + take_bit 32 (push_bit (nat (k mod 32)) (1::int)))"
    by (simp add: take_bit_signed_take_bit)
  also have "\<dots> = take_bit 32 (x + push_bit (nat (k mod 32)) 1)"
    by (simp only: take_bit_add)
  finally show ?thesis
    by (simp add: js_ushr0_def js_shl_def ToInt32_def ToUint32_def m one push_bit_eq_mult)
qed

lemma next_prefix:
  assumes "0 \<le> p" "p < 32"
  shows "js_ushr0 (getPrefixMask p + js_shl 1 (32 - (p + 1))) = getPrefixMask (p + 1)"
proof -
  define k where "k = nat (31 - p)"
  have k: "k < 32" "nat (32 - p) = Suc k" "nat ((32 - (p + 1)) mod 32) = k"
    "nat (32 - (p + 1)) = k" "nat (31 - p) = k"
    using assms by (simp_all add: k_def)
  have le: "(2::int) ^ k < 2 ^ 32"
    using k(1) by (intro power_strict_increasing) simp_all
  have "take_bit 32 ((2::int) ^ 32 - 2 ^ Suc k + 2 ^ k) = 2 ^ 32 - 2 ^ k"
    using le by (simp add: take_bit_int_eq_self)
  then show ?thesis
    using assms by (simp add: add_shl1_value getPrefixMask_value k)
qed

lemma contains_iff:
  assumes "0 \<le> p" "p \<le> 32"
  shows "js_ushr0 (js_and m (getPrefixMask p)) = getPrefixMask p
         \<longleftrightarrow> (\<forall>n. 32 - nat p \<le> n \<and> n < 32 \<longrightarrow> bit m n)"
proof -
  define k where "k = nat (32 - p)"
  have k: "k \<le> 32" "32 - nat p = k" using assms by (simp_all add: k_def)
  have pm: "getPrefixMask p = push_bit k (mask (32 - k))"
    using assms k(1)
    by (simp add: getPrefixMask_value k_def push_bit_eq_mult mask_eq_exp_minus_1 algebra_simps
        flip: power_add)
  have t: "take_bit 32 (push_bit k (mask (32 - k)) :: int) = push_bit k (mask (32 - k))"
    by (rule bit_eqI) (auto simp: bit_take_bit_iff bit_push_bit_iff bit_mask_iff)
  have bP: "bit (push_bit k (mask (32 - k)) :: int) n \<longleftrightarrow> k \<le> n \<and> n < 32" for n
    using k(1) by (auto simp: bit_push_bit_iff bit_mask_iff)
  have "take_bit 32 m AND push_bit k (mask (32 - k)) = push_bit k (mask (32 - k))
        \<longleftrightarrow> (\<forall>n. k \<le> n \<and> n < 32 \<longrightarrow> bit m n)"
  proof
    assume eq: "take_bit 32 m AND push_bit k (mask (32 - k)) = push_bit k (mask (32 - k))"
    show "\<forall>n. k \<le> n \<and> n < 32 \<longrightarrow> bit m n"
    proof (intro allI impI)
      fix n assume n: "k \<le> n \<and> n < 32"
      then have "bit (take_bit 32 m AND push_bit k (mask (32 - k))) n"
        unfolding eq bP .
      then show "bit m n"
        by (simp add: bit_and_iff bit_take_bit_iff)
    qed
  next
    assume all: "\<forall>n. k \<le> n \<and> n < 32 \<longrightarrow> bit m n"
    show "take_bit 32 m AND push_bit k (mask (32 - k)) = push_bit k (mask (32 - k))"
    proof (rule bit_eqI)
      fix n
      show "bit (take_bit 32 m AND push_bit k (mask (32 - k))) n
            \<longleftrightarrow> bit (push_bit k (mask (32 - k)) :: int) n"
        unfolding bit_and_iff bP bit_take_bit_iff using all by blast
    qed
  qed
  then show ?thesis
    unfolding js_and_unsigned pm t k(2) .
qed

lemma calculateCIDRPrefix_loop_result:
  "0 \<le> p \<Longrightarrow> p \<le> 32 \<Longrightarrow> prefix = getPrefixMask p \<Longrightarrow>
   p \<le> calculateCIDRPrefix_loop m p prefix \<and> calculateCIDRPrefix_loop m p prefix \<le> 32
   \<and> (\<forall>j. p < j \<and> j \<le> calculateCIDRPrefix_loop m p prefix \<longrightarrow>
         js_ushr0 (js_and m (getPrefixMask j)) = getPrefixMask j)
   \<and> (calculateCIDRPrefix_loop m p prefix < 32 \<longrightarrow>
         js_ushr0 (js_and m (getPrefixMask (calculateCIDRPrefix_loop m p prefix + 1)))
           \<noteq> getPrefixMask (calculateCIDRPrefix_loop m p prefix + 1))"
proof (induction m p prefix rule: calculateCIDRPrefix_loop.induct)
  case (1 m p prefix)
  show ?case
  proof (cases "p < 32")
    case False
    with 1(3) have "calculateCIDRPrefix_loop m p prefix = p"
      by (subst calculateCIDRPrefix_loop.simps) simp
    with False 1(3) show ?thesis by simp
  next
    case True
    have np: "js_ushr0 (prefix + js_shl 1 (32 - (p + 1))) = getPrefixMask (p + 1)"
      unfolding 1(4) using 1(2) True by (rule next_prefix)
    show ?thesis
    proof (cases "js_ushr0 (js_and m (getPrefixMask (p + 1))) = getPrefixMask (p + 1)")
      case False
      have "calculateCIDRPrefix_loop m p prefix = p"
        using True False np by (subst calculateCIDRPrefix_loop.simps) (simp add: Let_def)
      with False True 1(3) show ?thesis by simp
    next
      case c: True
      have unf: "calculateCIDRPrefix_loop m p prefix =
                 calculateCIDRPrefix_loop m (p + 1) (getPrefixMask (p + 1))"
        using True c np by (subst calculateCIDRPrefix_loop.simps) (simp add: Let_def)
      have ih: "p + 1 \<le> calculateCIDRPrefix_loop m (p + 1) (getPrefixMask (p + 1))
          \<and> calculateCIDRPrefix_loop m (p + 1) (getPrefixMask (p + 1)) \<le> 32
          \<and> (\<forall>j. p + 1 < j \<and> j \<le> calculateCIDRPrefix_loop m (p + 1) (getPrefixMask (p + 1)) \<longrightarrow>
                js_ushr0 (js_and m (getPrefixMask j)) = getPrefixMask j)
          \<and> (calculateCIDRPrefix_loop m (p + 1) (getPrefixMask (p + 1)) < 32 \<longrightarrow>
                js_ushr0 (js_and m (getPrefixMask
                   (calculateCIDRPrefix_loop m (p + 1) (getPrefixMask (p + 1)) + 1)))
                \<noteq> getPrefixMask (calculateCIDRPrefix_loop m (p + 1) (getPrefixMask (p + 1)) + 1))"
        using 1(1) [OF True refl] c np 1(2) True by simp
      have "\<forall>j. p < j \<and> j \<le> calculateCIDRPrefix_loop m (p + 1) (getPrefixMask (p + 1)) \<longrightarrow>
                js_ushr0 (js_and m (getPrefixMask j)) = getPrefixMask j"
      proof (intro allI impI)
        fix j assume j: "p < j \<and> j \<le> calculateCIDRPrefix_loop m (p + 1) (getPrefixMask (p + 1))"
        show "js_ushr0 (js_and m (getPrefixMask j)) = getPrefixMask j"
        proof (cases "j = p + 1")
          case True with c show ?thesis by simp
        next
          case False
          with j have "p + 1 < j" by simp
          with j ih show ?thesis by blast
        qed
      qed
      with ih show ?thesis unfolding unf by simp
    qed
  qed
qed

lemma calculateCIDRPrefix_result:
  assumes "toDecimal ip = Inr ipNum" "toDecimal subnetMask = Inr m"
  shows "\<exists>r. calculateCIDRPrefix ip subnetMask = Inr (Some r)
            \<and> getMaskRange ipNum (prefixSize r) = Inr r
            \<and> 0 \<le> prefixSize r \<and> prefixSize r \<le> 32
            \<and> js_ushr0 (js_and m (getPrefixMask (prefixSize r))) = getPrefixMask (prefixSize r)
            \<and> (\<forall>p. 0 \<le> p \<and> p \<le> 32
                  \<and> js_ushr0 (js_and m (getPrefixMask p)) = getPrefixMask p
                  \<longrightarrow> p \<le> prefixSize r)
            \<and> (\<forall>i. i < nat (prefixSize r) \<longrightarrow> bit m (31 - i))
            \<and> (prefixSize r < 32 \<longrightarrow> \<not> bit m (31 - nat (prefixSize r)))"
proof -
  define q where "q = calculateCIDRPrefix_loop m 0 0"
  have pm0: "getPrefixMask 0 = 0"
    using getPrefixMask_value [of 0] by simp
  from calculateCIDRPrefix_loop_result [of 0 0 m] pm0
  have q: "0 \<le> q" "q \<le> 32"
      "\<forall>j. 0 < j \<and> j \<le> q \<longrightarrow> js_ushr0 (js_and m (getPrefixMask j)) = getPrefixMask j"
      "q < 32 \<longrightarrow> js_ushr0 (js_and m (getPrefixMask (q + 1))) \<noteq> getPrefixMask (q + 1)"
    by (simp_all add: q_def)
  from toDecimal_range [OF assms(1)] have a: "0 \<le> ipNum" "ipNum < 2 ^ 32" by simp_all
  from getMaskRange_fields [OF a q(1,2)] obtain r where
    r: "getMaskRange ipNum q = Inr r" "prefixSize r = q"
    by blast
  have c: "calculateCIDRPrefix ip subnetMask = Inr (Some r)"
    using assms r(1) by (simp add: calculateCIDRPrefix_def q_def)
  have cq: "js_ushr0 (js_and m (getPrefixMask q)) = getPrefixMask q"
  proof (cases "q = 0")
    case True
    then show ?thesis by (simp add: pm0 js_and_unsigned)
  next
    case False
    with q(1,3) show ?thesis by simp
  qed
  have bits: "\<forall>n. 32 - nat q \<le> n \<and> n < 32 \<longrightarrow> bit m n"
    using cq contains_iff [OF q(1,2), of m] by simp
  have ones: "\<forall>i. i < nat q \<longrightarrow> bit m (31 - i)"
  proof (intro allI impI)
    fix i assume "i < nat q"
    with q(2) have "32 - nat q \<le> 31 - i \<and> 31 - i < 32" by auto
    with bits show "bit m (31 - i)" by blast
  qed
  have zero: "\<not> bit m (31 - nat q)" if lt: "q < 32"
  proof
    assume b: "bit m (31 - nat q)"
    have q1: "0 \<le> q + 1" "q + 1 \<le> 32" using q(1) lt by simp_all
    have "\<forall>n. 32 - nat (q + 1) \<le> n \<and> n < 32 \<longrightarrow> bit m n"
    proof (intro allI impI)
      fix n assume n: "32 - nat (q + 1) \<le> n \<and> n < 32"
      show "bit m n"
      proof (cases "n = 31 - nat q")
        case True with b show ?thesis by simp
      next
        case False
        with n q(1) lt have "32 - nat q \<le> n \<and> n < 32" by (auto simp: nat_add_distrib)
        with bits show ?thesis by blast
      qed
    qed
    then have "js_ushr0 (js_and m (getPrefixMask (q + 1))) = getPrefixMask (q + 1)"
      using contains_iff [OF q1, of m] by simp
    with q(4) lt show False by simp
  qed
  have largest: "p \<le> q"
    if p: "0 \<le> p" "p \<le> 32" "js_ushr0 (js_and m (getPrefixMask p)) = getPrefixMask p" for p
  proof (rule ccontr)
    assume "\<not> p \<le> q"
    then have lt: "q < p" by simp
    then have q32: "q < 32" using p(2) by simp
    from p(3) contains_iff [OF p(1,2), of m]
    have "\<forall>n. 32 - nat p \<le> n \<and> n < 32 \<longrightarrow> bit m n" by simp
    moreover have "32 - nat p \<le> 31 - nat q \<and> 31 - nat q < 32"
      using lt q(1) p(2) by auto
    ultimately have "bit m (31 - nat q)" by blast
    with zero [OF q32] show False by simp
  qed
  from c r q(1,2) cq ones zero largest show ?thesis
    by auto
qed

section \<open>The mask loops on doubles\<close>

lemma round_double_exact: "\<bar>n\<bar> \<le> 9007199254740992 \<Longrightarrow> round_double n = n"
  by (simp add: round_double_def)

lemma js_add_exact: "\<bar>a + b\<bar> \<le> 9007199254740992 \<Longrightarrow> js_add a b = a + b"
  by (simp add: js_add_def round_double_exact)

lemma js_sub_exact: "\<bar>a - b\<bar> \<le> 9007199254740992 \<Longrightarrow> js_sub a b = a - b"
  by (simp add: js_sub_def round_double_exact)





lemma getPrefixMask_double_loop_stop:
  "\<not> i < p \<Longrightarrow> getPrefixMask_double_loop p i acc = Some acc"
  by (subst getPrefixMask_double_loop.simps) simp

lemma getPrefixMask_double_loop_step:
  "i < p \<Longrightarrow> getPrefixMask_double_loop p i acc =
     getPrefixMask_double_loop p (js_add i 1)
       (js_add acc (js_ushr0 (js_shl 1 (js_sub 32 (js_add i 1)))))"
  by (subst getPrefixMask_double_loop.simps) simp

lemma shl1_le: "js_ushr0 (js_shl 1 k) \<le> 4294967296"
proof -
  have "nat (k mod 32) \<le> 32" by simp
  then have "(2::int) ^ nat (k mod 32) \<le> 2 ^ 32"
    by (intro power_increasing) simp_all
  then show ?thesis by (simp add: shl1_value)
qed

lemma getPrefixMask_double_loop_exact:
  "0 \<le> i \<Longrightarrow> i \<le> j \<Longrightarrow> j \<le> p \<Longrightarrow> j \<le> 1048576 \<Longrightarrow>
   0 \<le> acc \<Longrightarrow> acc \<le> i * 4294967296 \<Longrightarrow>
   getPrefixMask_double_loop p i acc =
     getPrefixMask_double_loop p j (getPrefixMask_loop j i acc)"
proof (induction "nat (j - i)" arbitrary: i acc)
  case 0
  then have "i = j" by simp
  then show ?case by (subst getPrefixMask_loop.simps) simp
next
  case (Suc n)
  then have lt: "i < j" "i < p" by simp_all
  define t where "t = js_ushr0 (js_shl 1 (32 - (i + 1)))"
  have t: "0 \<le> t" "t \<le> 4294967296"
    unfolding t_def using shl1_nonneg shl1_le by simp_all
  have i1: "js_add i 1 = i + 1"
    using Suc.prems lt by (intro js_add_exact) simp
  have s1: "js_sub 32 (i + 1) = 32 - (i + 1)"
    using Suc.prems lt by (intro js_sub_exact) simp
  have "i * 4294967296 + 4294967296 \<le> 1048576 * 4294967296"
    using lt(1) Suc.prems(4) by simp
  then have a1: "js_add acc t = acc + t"
    using Suc.prems(5,6) t by (intro js_add_exact) simp
  have "getPrefixMask_double_loop p i acc = getPrefixMask_double_loop p (i + 1) (acc + t)"
    using getPrefixMask_double_loop_step [OF lt(2), of acc]
    unfolding i1 s1 t_def [symmetric] a1 .
  also have "\<dots> = getPrefixMask_double_loop p j (getPrefixMask_loop j (i + 1) (acc + t))"
  proof (rule Suc.hyps(1))
    show "n = nat (j - (i + 1))" using Suc.hyps(2) by simp
    show "0 \<le> i + 1" using Suc.prems by simp
    show "i + 1 \<le> j" using lt by simp
    show "j \<le> p" by fact
    show "j \<le> 1048576" by fact
    show "0 \<le> acc + t" using Suc.prems t by simp
    show "acc + t \<le> (i + 1) * 4294967296" using Suc.prems t by (simp add: algebra_simps)
  qed
  also have "getPrefixMask_loop j (i + 1) (acc + t) = getPrefixMask_loop j i acc"
    using lt(1) by (subst (2) getPrefixMask_loop.simps) (simp add: t_def)
  finally show ?case .
qed



lemma getMask_double_loop_stop:
  "\<not> i < m \<Longrightarrow> getMask_double_loop m i acc = Some acc"
  by (subst getMask_double_loop.simps) simp

lemma getMask_double_loop_step:
  "i < m \<Longrightarrow> getMask_double_loop m i acc =
     getMask_double_loop m (js_add i 1) (js_add acc (js_ushr0 (js_shl 1 i)))"
  by (subst getMask_double_loop.simps) simp

lemma getMask_double_loop_exact:
  "0 \<le> i \<Longrightarrow> i \<le> j \<Longrightarrow> j \<le> m \<Longrightarrow> j \<le> 1048576 \<Longrightarrow>
   0 \<le> acc \<Longrightarrow> acc \<le> i * 4294967296 \<Longrightarrow>
   getMask_double_loop m i acc = getMask_double_loop m j (getMask_loop j i acc)"
proof (induction "nat (j - i)" arbitrary: i acc)
  case 0
  then have "i = j" by simp
  then show ?case by (subst getMask_loop.simps) simp
next
  case (Suc n)
  then have lt: "i < j" "i < m" by simp_all
  define t where "t = js_ushr0 (js_shl 1 i)"
  have t: "0 \<le> t" "t \<le> 4294967296"
    unfolding t_def using shl1_nonneg shl1_le by simp_all
  have i1: "js_add i 1 = i + 1"
    using Suc.prems lt by (intro js_add_exact) simp
  have "i * 4294967296 + 4294967296 \<le> 1048576 * 4294967296"
    using lt(1) Suc.prems(4) by simp
  then have a1: "js_add acc t = acc + t"
    using Suc.prems(5,6) t by (intro js_add_exact) simp
  have "getMask_double_loop m i acc = getMask_double_loop m (i + 1) (acc + t)"
    using getMask_double_loop_step [OF lt(2), of acc]
    unfolding i1 t_def [symmetric] a1 .
  also have "\<dots> = getMask_double_loop m j (getMask_loop j (i + 1) (acc + t))"
  proof (rule Suc.hyps(1))
    show "n = nat (j - (i + 1))" using Suc.hyps(2) by simp
    show "0 \<le> i + 1" using Suc.prems by simp
    show "i + 1 \<le> j" using lt by simp
    show "j \<le> m" by fact
    show "j \<le> 1048576" by fact
    show "0 \<le> acc + t" using Suc.prems t by simp
    show "acc + t \<le> (i + 1) * 4294967296" using Suc.prems t by (simp add: algebra_simps)
  qed
  also have "getMask_loop j (i + 1) (acc + t) = getMask_loop j i acc"
    using lt(1) by (subst (2) getMask_loop.simps) (simp add: t_def)
  finally show ?case .
qed



lemma getPrefixMask_double_exact:
  assumes "0 \<le> p" "p \<le> 1048576"
  shows "getPrefixMask_double p = Some (getPrefixMask p)"
proof -
  have "getPrefixMask_double_loop p 0 0 =
        getPrefixMask_double_loop p p (getPrefixMask_loop p 0 0)"
    using assms by (intro getPrefixMask_double_loop_exact) simp_all
  then show ?thesis
    by (simp add: getPrefixMask_double_def getPrefixMask_def getPrefixMask_double_loop_stop)
qed




lemma getMask_double_exact:
  assumes "0 \<le> m" "m \<le> 1048576"
  shows "getMask_double m = Some (getMask m)"
proof -
  have "getMask_double_loop m 0 0 = getMask_double_loop m m (getMask_loop m 0 0)"
    using assms by (intro getMask_double_loop_exact) simp_all
  then show ?thesis
    by (simp add: getMask_double_def getMask_def getMask_double_loop_stop)
qed




lemma getMaskRange_double_exact:
  assumes "0 \<le> p" "p \<le> 32"
  shows "getMaskRange_double a p = Some (getMaskRange a p)"
proof -
  have pm: "getPrefixMask_double p = Some (getPrefixMask p)"
    using assms by (intro getPrefixMask_double_exact) simp_all
  have sub: "js_sub 32 p = 32 - p"
    using assms by (intro js_sub_exact) simp
  have lm: "getMask_double (32 - p) = Some (getMask (32 - p))"
    using assms by (intro getMask_double_exact) simp_all
  have "(2::int) ^ nat (32 - p) \<le> 2 ^ 32"
    using assms by (intro power_increasing) simp_all
  then have lmv: "0 \<le> getMask (32 - p)" "getMask (32 - p) \<le> 4294967296"
    using assms by (simp_all add: getMask_value)
  have add: "js_add (js_ushr0 (js_and a (getPrefixMask p))) (getMask (32 - p)) =
             js_ushr0 (js_and a (getPrefixMask p)) + getMask (32 - p)"
    using js_ushr0_range [of "js_and a (getPrefixMask p)"] lmv
    by (intro js_add_exact) simp
  show ?thesis
    unfolding getMaskRange_double_def getMaskRange_def Let_def sub pm lm option.case
    unfolding add by simp
qed




lemma calculateSubnetMask_in_range:
  assumes "toDecimal ip = Inr ipNum" "0 \<le> pSize" "pSize \<le> 32"
  shows "\<exists>r. getMaskRange ipNum pSize = Inr r
           \<and> calculateSubnetMask ip pSize = Some (Inr (Some r))"
proof -
  from toDecimal_range [OF assms(1)] have a: "0 \<le> ipNum" "ipNum < 2 ^ 32" by simp_all
  from getMaskRange_fields [OF a assms(2,3)] obtain r where
    r: "getMaskRange ipNum pSize = Inr r"
    by blast
  then have "calculateSubnetMask ip pSize = Some (Inr (Some r))"
    using assms by (simp add: calculateSubnetMask_def getMaskRange_double_exact)
  with r show ?thesis by blast
qed

section \<open>The number of blocks\<close>

lemma blocks_done: "e < c \<Longrightarrow> blocks c e = []"
  by (simp add: blocks_def calculate_loop_done)

lemma calculate_loop_blocks:
  assumes "0 \<le> c" "c \<le> e + 1" "e < 2 ^ 32"
  shows "calculate_loop c e acc = Some (Inr (Some (acc @ blocks c e)))"
proof -
  from calculate_loop_covers [OF assms] obtain bs where
    bs: "\<forall>acc. calculate_loop c e acc = Some (Inr (Some (acc @ bs)))"
    by blast
  then have "calculate_loop c e [] = Some (Inr (Some bs))"
    by (metis append_Nil)
  then have "blocks c e = bs" by (simp add: blocks_def)
  with bs show ?thesis by simp
qed

lemma blocks_step:
  assumes c: "0 \<le> c" "c \<le> e" "e < 2 ^ 32"
    and k: "k \<le> 32" "2 ^ k dvd c" "c + 2 ^ k - 1 \<le> e"
    and mx: "k = 32 \<or> \<not> 2 ^ Suc k dvd c \<or> e < c + 2 ^ Suc k - 1"
  shows "length (blocks c e) = Suc (length (blocks (c + 2 ^ k) e))"
proof -
  from getOptimalRange_step [OF c] obtain r j where
    r: "getOptimalRange c e = Inr (Some r)" "ipHigh r = c + 2 ^ j - 1"
    and j: "j \<le> 32" "2 ^ j dvd c" "c + 2 ^ j - 1 \<le> e"
      "j = 32 \<or> \<not> (2 ^ Suc j dvd c \<and> c + 2 ^ Suc j - 1 \<le> e)"
    by blast
  have "j = k"
  proof (rule ccontr)
    assume "j \<noteq> k"
    then consider "j < k" | "k < j" by linarith
    then show False
    proof cases
      case 1
      then have le: "Suc j \<le> k" by simp
      have "(2::int) ^ Suc j dvd 2 ^ k" using le by (rule le_imp_power_dvd)
      then have d: "2 ^ Suc j dvd c" using k(2) by (rule dvd_trans)
      have "(2::int) ^ Suc j \<le> 2 ^ k" using le by (intro power_increasing) simp_all
      then have "c + 2 ^ Suc j - 1 \<le> e" using k(3) by linarith
      with d j(4) 1 k(1) show False by simp
    next
      case 2
      then have le: "Suc k \<le> j" by simp
      have "(2::int) ^ Suc k dvd 2 ^ j" using le by (rule le_imp_power_dvd)
      then have d: "2 ^ Suc k dvd c" using j(2) by (rule dvd_trans)
      have "(2::int) ^ Suc k \<le> 2 ^ j" using le by (intro power_increasing) simp_all
      then have "c + 2 ^ Suc k - 1 \<le> e" using j(3) by linarith
      with d mx 2 j(1) show False by simp
    qed
  qed
  with r have hi: "ipHigh r + 1 = c + 2 ^ k" by simp
  have c': "0 \<le> c + 2 ^ k" "c + 2 ^ k \<le> e + 1"
    using c(1) k(3) by simp_all
  have "calculate_loop c e [] = calculate_loop (c + 2 ^ k) e [r]"
    using calculate_loop_step [OF c(2) r(1), of "[]"] hi by simp
  also have "\<dots> = Some (Inr (Some ([r] @ blocks (c + 2 ^ k) e)))"
    using c' c(3) by (rule calculate_loop_blocks)
  finally have "blocks c e = r # blocks (c + 2 ^ k) e"
    by (simp add: blocks_def)
  then show ?thesis by simp
qed

lemma exp_le_imp_le: "(2::int) ^ k \<le> 2 ^ n \<Longrightarrow> k \<le> n"
  by simp

lemma blocks_descending:
  "0 \<le> c \<Longrightarrow> e < 2 ^ 32 \<Longrightarrow> 2 ^ k dvd c \<Longrightarrow> e + 1 - c < 2 ^ k \<Longrightarrow>
   length (blocks c e) \<le> k"
proof (induction k arbitrary: c)
  case 0
  then have "e < c" by simp
  then show ?case by (simp add: blocks_done)
next
  case (Suc k)
  have d: "2 ^ k dvd c"
    using Suc.prems(3) by (rule dvd_trans [rotated]) simp
  show ?case
  proof (cases "e + 1 - c < 2 ^ k")
    case True
    from Suc.IH [OF Suc.prems(1,2) d True] show ?thesis by simp
  next
    case False
    then have fit: "c + 2 ^ k - 1 \<le> e" by simp
    have kpos: "(0::int) < 2 ^ k" by simp
    have ce: "c \<le> e" using fit kpos by linarith
    have "(2::int) ^ k \<le> 2 ^ 32"
      using False Suc.prems(1,2) by linarith
    then have k32: "k \<le> 32"
      by (rule exp_le_imp_le)
    have over: "e < c + 2 ^ Suc k - 1"
      using Suc.prems(4) by simp
    have len: "length (blocks c e) = Suc (length (blocks (c + 2 ^ k) e))"
      using Suc.prems(1) ce Suc.prems(2) k32 d fit by (rule blocks_step) (use over in simp)
    have "length (blocks (c + 2 ^ k) e) \<le> k"
    proof (rule Suc.IH)
      show "0 \<le> c + 2 ^ k" using Suc.prems(1) by simp
      show "e < 2 ^ 32" by fact
      show "2 ^ k dvd c + 2 ^ k" using d by simp
      show "e + 1 - (c + 2 ^ k) < 2 ^ k" using Suc.prems(4) by simp
    qed
    with len show ?thesis by simp
  qed
qed

lemma next_alignment:
  fixes c :: int
  assumes "2 ^ t dvd c" "\<not> 2 ^ Suc t dvd c"
  shows "2 ^ Suc t dvd c + 2 ^ t"
proof -
  from assms(1) obtain q where q: "c = 2 ^ t * q" by (auto simp: dvd_def)
  have "odd q"
  proof
    assume "even q"
    then obtain h where "q = 2 * h" by (auto simp: dvd_def)
    then have "c = 2 ^ Suc t * h" using q by simp
    with assms(2) show False by simp
  qed
  then have "even (q + 1)" by simp
  then obtain h where h: "q + 1 = 2 * h" by (auto simp: dvd_def)
  have "c + 2 ^ t = 2 ^ t * (q + 1)"
    using q by (simp add: algebra_simps)
  also have "\<dots> = 2 ^ Suc t * h"
    unfolding h by simp
  finally show ?thesis by simp
qed

lemma blocks_ascending:
  "t \<le> 31 \<Longrightarrow> 0 < c \<Longrightarrow> c \<le> e + 1 \<Longrightarrow> e < 2 ^ 32 \<Longrightarrow> 2 ^ t dvd c \<Longrightarrow>
   length (blocks c e) \<le> 62 - t"
proof (induction "31 - t" arbitrary: t c)
  case 0
  then have t: "t = 31" by simp
  have kpos: "(0::int) < 2 ^ t" by simp
  show ?case
  proof (cases "e + 1 - c < 2 ^ t")
    case True
    have "length (blocks c e) \<le> t"
      using 0(3) 0(5,6) True by (intro blocks_descending) simp_all
    with t show ?thesis by simp
  next
    case False
    then have fit: "c + 2 ^ t - 1 \<le> e" by simp
    have "(2::int) ^ t dvd 2 ^ 32" using 0(2) by (intro le_imp_power_dvd) simp
    have "c + 2 ^ t \<le> 2 ^ 32" using fit 0(5) by linarith
    have c31: "(2::int) ^ t \<le> c"
      using 0(6) 0(3) by (intro zdvd_imp_le) simp_all
    have top: "c + 2 ^ t = 2 ^ 32" "e + 1 = 2 ^ 32"
      using fit 0(5) c31 t by simp_all
    have "length (blocks c e) = Suc (length (blocks (c + 2 ^ t) e))"
    proof (rule blocks_step)
      show "0 \<le> c" using 0(3) by simp
      show "c \<le> e" using fit kpos by linarith
      show "e < 2 ^ 32" by fact
      show "t \<le> 32" using t by simp
      show "2 ^ t dvd c" by fact
      show "c + 2 ^ t - 1 \<le> e" by fact
      have "(2::int) ^ Suc t = 2 ^ t + 2 ^ t" by simp
      then have "e < c + 2 ^ Suc t - 1"
        using top kpos by linarith
      then show "t = 32 \<or> \<not> 2 ^ Suc t dvd c \<or> e < c + 2 ^ Suc t - 1"
        by simp
    qed
    moreover have "blocks (c + 2 ^ t) e = []"
      using top by (intro blocks_done) simp
    ultimately show ?thesis using t by simp
  qed
next
  case (Suc n)
  then have t: "t \<le> 30" "n = 31 - Suc t" by simp_all
  have kpos: "(0::int) < 2 ^ t" by simp
  show ?case
  proof (cases "e + 1 - c < 2 ^ t")
    case True
    have "length (blocks c e) \<le> t"
      using Suc.prems(2,4,5) True by (intro blocks_descending) simp_all
    with t show ?thesis by simp
  next
    case False
    then have fit: "c + 2 ^ t - 1 \<le> e" by simp
    show ?thesis
    proof (cases "2 ^ Suc t dvd c")
      case True
      have "length (blocks c e) \<le> 62 - Suc t"
        using t(2) _ Suc.prems(2,3,4) True by (rule Suc.hyps(1)) (use t in simp)
      then show ?thesis by simp
    next
      case False
      have len: "length (blocks c e) = Suc (length (blocks (c + 2 ^ t) e))"
      proof (rule blocks_step)
        show "0 \<le> c" using Suc.prems(2) by simp
        show "c \<le> e" using fit kpos by linarith
        show "e < 2 ^ 32" by fact
        show "t \<le> 32" using t by simp
        show "2 ^ t dvd c" by fact
        show "c + 2 ^ t - 1 \<le> e" by fact
        show "t = 32 \<or> \<not> 2 ^ Suc t dvd c \<or> e < c + 2 ^ Suc t - 1"
          using False by simp
      qed
      have "length (blocks (c + 2 ^ t) e) \<le> 62 - Suc t"
      proof (rule Suc.hyps(1) [OF t(2)])
        show "Suc t \<le> 31" using t by simp
        show "0 < c + 2 ^ t" using Suc.prems(2) kpos by linarith
        show "c + 2 ^ t \<le> e + 1" using fit by simp
        show "e < 2 ^ 32" by fact
        show "2 ^ Suc t dvd c + 2 ^ t"
          using Suc.prems(5) False by (rule next_alignment)
      qed
      with len t show ?thesis by simp
    qed
  qed
qed

lemma blocks_length_bound:
  assumes "0 \<le> c" "c \<le> e" "e < 2 ^ 32"
  shows "length (blocks c e) \<le> 62"
proof (cases "c = 0")
  case False
  have "length (blocks c e) \<le> 62 - 0"
    using assms False by (intro blocks_ascending) simp_all
  then show ?thesis by simp
next
  case True
  show ?thesis
  proof (cases "e + 1 - c < 2 ^ 32")
    case lt: True
    have "length (blocks c e) \<le> 32"
      using assms(1,3) _ lt by (rule blocks_descending) (simp add: True)
    then show ?thesis by simp
  next
    case False
    with True assms have e: "e = 2 ^ 32 - 1" by simp
    have "length (blocks c e) = Suc (length (blocks (c + 2 ^ 32) e))"
      using assms by (rule blocks_step) (simp_all add: True e)
    moreover have "blocks (c + 2 ^ 32) e = []"
      by (rule blocks_done) (simp add: True e)
    ultimately show ?thesis by simp
  qed
qed

lemma getOptimalRange_rounds_bound:
  "getOptimalRange_rounds a e p \<le> nat (p + 1)"
proof (induction a e p rule: getOptimalRange_rounds.induct)
  case (1 ipNum ipEndNum pSize)
  show ?case
  proof (cases "0 \<le> pSize")
    case False
    then show ?thesis by (subst getOptimalRange_rounds.simps) simp
  next
    case True
    show ?thesis
    proof (cases "getMaskRange ipNum pSize")
      case (Inl err)
      with True show ?thesis by (subst getOptimalRange_rounds.simps) simp
    next
      case (Inr m)
      show ?thesis
      proof (cases "ipLow m = ipNum \<and> ipHigh m \<le> ipEndNum")
        case False
        with True Inr show ?thesis by (subst getOptimalRange_rounds.simps) auto
      next
        case c: True
        from 1 [OF True Inr c] have "getOptimalRange_rounds ipNum ipEndNum (pSize - 1) \<le> nat pSize"
          by simp
        with True Inr c show ?thesis
          by (subst getOptimalRange_rounds.simps) simp
      qed
    qed
  qed
qed

lemma blocks_down_chain:
  assumes e: "e = 2 ^ 32 - 2"
  shows "j \<le> 30 \<Longrightarrow> length (blocks (2 ^ 32 - 2 ^ Suc j) e) = Suc j"
proof (induction j)
  case 0
  have "length (blocks (2 ^ 32 - 2 ^ Suc 0) e) = Suc (length (blocks (2 ^ 32 - 2 ^ Suc 0 + 2 ^ 0) e))"
    by (rule blocks_step) (simp_all add: e)
  moreover have "blocks (2 ^ 32 - 2 ^ Suc 0 + 2 ^ 0) e = []"
    by (rule blocks_done) (simp add: e)
  ultimately show ?case by simp
next
  case (Suc j)
  define c :: int where "c = 2 ^ 32 - 2 ^ Suc (Suc j)"
  have le: "(2::int) ^ Suc (Suc j) \<le> 2 ^ 32"
    using Suc.prems by (intro power_increasing) simp_all
  have pos: "(0::int) < 2 ^ Suc j" by simp
  have dbl: "(2::int) ^ Suc (Suc j) = 2 ^ Suc j + 2 ^ Suc j" by simp
  have d: "(2::int) ^ Suc j dvd 2 ^ 32"
    using Suc.prems by (intro le_imp_power_dvd) simp
  have "length (blocks c e) = Suc (length (blocks (c + 2 ^ Suc j) e))"
  proof (rule blocks_step)
    show "0 \<le> c" unfolding c_def using le by simp
    show "c \<le> e"
    proof -
      have "(2::int) \<le> 2 ^ Suc (Suc j)"
        using power_increasing [of 1 "Suc (Suc j)" "2::int"] by simp
      then show ?thesis unfolding c_def e by linarith
    qed
    show "e < 2 ^ 32" unfolding e by simp
    show "Suc j \<le> 32" using Suc.prems by simp
    show "2 ^ Suc j dvd c" unfolding c_def using d by (intro dvd_diff) simp_all
    show "c + 2 ^ Suc j - 1 \<le> e" unfolding c_def e dbl using pos by linarith
    have "e < c + 2 ^ Suc (Suc j) - 1" unfolding c_def e by simp
    then show "Suc j = 32 \<or> \<not> 2 ^ Suc (Suc j) dvd c \<or> e < c + 2 ^ Suc (Suc j) - 1"
      by simp
  qed
  moreover have "c + 2 ^ Suc j = 2 ^ 32 - 2 ^ Suc j"
    unfolding c_def dbl by simp
  ultimately show ?case
    using Suc.IH Suc.prems by (simp add: c_def)
qed

lemma blocks_up_chain:
  assumes e: "e = 2 ^ 32 - 2"
  shows "t \<le> 31 \<Longrightarrow> length (blocks (2 ^ t) e) = (31 - t) + 31"
proof (induction "31 - t" arbitrary: t)
  case 0
  then have t: "t = 31" by simp
  have "(2::int) ^ 31 = 2 ^ 32 - 2 ^ Suc 30" by simp
  then show ?case
    unfolding t using blocks_down_chain [OF e, of 30] by simp
next
  case (Suc n)
  then have t: "t \<le> 30" "n = 31 - Suc t" by simp_all
  have pos: "(0::int) < 2 ^ t" by simp
  have dbl: "(2::int) ^ Suc t = 2 ^ t + 2 ^ t" by simp
  have le: "(2::int) ^ Suc t \<le> 2 ^ 31"
    using t(1) by (intro power_increasing) simp_all
  have "length (blocks (2 ^ t) e) = Suc (length (blocks (2 ^ t + 2 ^ t) e))"
  proof (rule blocks_step)
    show "(0::int) \<le> 2 ^ t" by simp
    show "2 ^ t \<le> e" unfolding e using le dbl pos by simp
    show "e < 2 ^ 32" unfolding e by simp
    show "t \<le> 32" using t by simp
    show "(2::int) ^ t dvd 2 ^ t" by simp
    show "2 ^ t + 2 ^ t - 1 \<le> e" unfolding e using le dbl by simp
    have "\<not> (2::int) ^ Suc t dvd 2 ^ t"
    proof
      assume "(2::int) ^ Suc t dvd 2 ^ t"
      then have "(2::int) ^ Suc t \<le> 2 ^ t"
        by (rule zdvd_imp_le) simp
      then show False
        unfolding dbl using pos by linarith
    qed
    then show "t = 32 \<or> \<not> (2::int) ^ Suc t dvd 2 ^ t \<or> e < 2 ^ t + 2 ^ Suc t - 1"
      by blast
  qed
  moreover have "length (blocks (2 ^ Suc t) e) = (31 - Suc t) + 31"
    using t by (intro Suc.hyps(1)) simp_all
  ultimately show ?case
    using t(1) by (simp add: dbl [symmetric] del: power_Suc)
qed

lemma blocks_worst_case: "length (blocks 1 4294967294) = 62"
  using blocks_up_chain [of 4294967294 0] by simp

section \<open>Properties of the decomposition\<close>

text \<open>
  C1.  For every pair of valid addresses \<open>ipStart\<close> and \<open>ipEnd\<close> (strings or numbers,
  with the values \<open>s \<le> e\<close>), \<open>calculate\<close> returns a list of blocks that is not empty,
  in which every block begins one past the end of the block before it (contiguous), no
  block is empty, every earlier block lies entirely below every later one (ascending, no
  overlap), and the union of the blocks is exactly the inclusive range from \<open>s\<close> to
  \<open>e\<close>.
\<close>

theorem calculate_covers_range:
  assumes "toDecimal ipStart = Inr s" "toDecimal ipEnd = Inr e" "s \<le> e"
  shows "\<exists>bs. calculate ipStart ipEnd = Some (Inr (Some bs))
          \<and> bs \<noteq> []
          \<and> (\<forall>i. Suc i < length bs \<longrightarrow> ipLow (bs ! Suc i) = ipHigh (bs ! i) + 1)
          \<and> (\<forall>i<length bs. ipLow (bs ! i) \<le> ipHigh (bs ! i))
          \<and> (\<forall>i j. i < j \<and> j < length bs \<longrightarrow> ipHigh (bs ! i) < ipLow (bs ! j))
          \<and> (\<Union>b\<in>set bs. {ipLow b..ipHigh b}) = {s..e}"
proof -
  from toDecimal_range [OF assms(1)] toDecimal_range [OF assms(2)] assms(3)
  have r: "0 \<le> s" "s \<le> e + 1" "e < 2 ^ 32" by simp_all
  from calculate_loop_covers [OF r] obtain bs where
    bs: "calculate_loop s e [] = Some (Inr (Some bs))" "covers s e bs"
    by (metis append_Nil)
  have c: "calculate ipStart ipEnd = Some (Inr (Some bs))"
    using assms bs(1) by (simp add: calculate_def)
  have wf: "\<forall>i<length bs. ipLow (bs ! i) \<le> ipHigh (bs ! i)"
    using covers_low_ge [OF bs(2)] by simp
  show ?thesis
    using c covers_nonempty [OF bs(2) assms(3)] covers_adjacent [OF bs(2)] wf
      covers_ordered [OF bs(2)] covers_union [OF bs(2)]
    by blast
qed

theorem calculate_covers_range_witness:
  "toDecimal (JStr ''10.0.0.0'') = Inr 167772160
   \<and> toDecimal (JStr ''10.0.1.1'') = Inr 167772417
   \<and> (167772160 :: int) \<le> 167772417
   \<and> (\<exists>bs. calculate (JStr ''10.0.0.0'') (JStr ''10.0.1.1'') = Some (Inr (Some bs))
          \<and> bs \<noteq> []
          \<and> (\<forall>i. Suc i < length bs \<longrightarrow> ipLow (bs ! Suc i) = ipHigh (bs ! i) + 1)
          \<and> (\<forall>i<length bs. ipLow (bs ! i) \<le> ipHigh (bs ! i))
          \<and> (\<forall>i j. i < j \<and> j < length bs \<longrightarrow> ipHigh (bs ! i) < ipLow (bs ! j))
          \<and> (\<Union>b\<in>set bs. {ipLow b..ipHigh b}) = {167772160..167772417})"
proof -
  have h1: "toDecimal (JStr ''10.0.0.0'') = Inr 167772160" by code_simp
  have h2: "toDecimal (JStr ''10.0.1.1'') = Inr 167772417" by code_simp
  have h3: "(167772160 :: int) \<le> 167772417" by simp
  from calculate_covers_range [OF h1 h2 h3] h1 h2 h3 show ?thesis by blast
qed

text \<open>
  C2.  For every cursor address \<open>ipNum\<close> and end address \<open>ipEndNum\<close> with
  \<open>ipNum \<le> ipEndNum\<close>, \<open>getOptimalRange\<close> returns the block of \<open>getMaskRange\<close> at
  \<open>ipNum\<close> whose prefix size is the smallest among all prefix sizes from 0 to 32 for
  which the block begins at \<open>ipNum\<close> and does not exceed \<open>ipEndNum\<close>.
\<close>

theorem getOptimalRange_smallest_prefix:
  assumes "0 \<le> ipNum" "ipNum \<le> ipEndNum" "ipEndNum \<le> 4294967295"
  shows "\<exists>r. getOptimalRange ipNum ipEndNum = Inr (Some r)
            \<and> getMaskRange ipNum (prefixSize r) = Inr r
            \<and> 0 \<le> prefixSize r \<and> prefixSize r \<le> 32
            \<and> fits ipNum ipEndNum (prefixSize r)
            \<and> (\<forall>p. 0 \<le> p \<and> p \<le> 32 \<and> fits ipNum ipEndNum p \<longrightarrow> prefixSize r \<le> p)"
proof -
  from assms(3) have "ipEndNum < 2 ^ 32" by simp
  with assms(1,2) show ?thesis by (rule getOptimalRange_result)
qed

theorem getOptimalRange_smallest_prefix_witness:
  "(0::int) \<le> 167772160 \<and> (167772160::int) \<le> 167772417 \<and> (167772417::int) \<le> 4294967295
   \<and> (\<exists>r. getOptimalRange 167772160 167772417 = Inr (Some r)
            \<and> getMaskRange 167772160 (prefixSize r) = Inr r
            \<and> 0 \<le> prefixSize r \<and> prefixSize r \<le> 32
            \<and> fits 167772160 167772417 (prefixSize r)
            \<and> (\<forall>p. 0 \<le> p \<and> p \<le> 32 \<and> fits 167772160 167772417 p \<longrightarrow> prefixSize r \<le> p))"
  using getOptimalRange_smallest_prefix [of 167772160 167772417] by simp

text \<open>
  C3.  For all valid addresses with values \<open>s \<le> e\<close>, also for \<open>e = 0xFFFFFFFF\<close>,
  the loop of \<open>calculate\<close> returns: the result is a list of blocks whose last block
  ends at \<open>e\<close>; the cursor after it is \<open>e + 1\<close>, which is not wrapped to 32 bits and
  exceeds \<open>e\<close>, so the test of the loop fails there and the list is returned.  For the
  whole address space the result is the single block of prefix size 0.
\<close>

theorem calculate_terminates:
  assumes "toDecimal ipStart = Inr s" "toDecimal ipEnd = Inr e" "s \<le> e"
  shows "(\<exists>bs. calculate ipStart ipEnd = Some (Inr (Some bs))
            \<and> bs \<noteq> []
            \<and> ipHigh (last bs) + 1 = e + 1
            \<and> \<not> ipHigh (last bs) + 1 \<le> e
            \<and> calculate_loop (ipHigh (last bs) + 1) e bs = Some (Inr (Some bs)))
         \<and> calculate_loop 4294967296 4294967295 rangeCollection
             = Some (Inr (Some rangeCollection))
         \<and> calculate (JStr ''0.0.0.0'') (JStr ''255.255.255.255'')
             = Some (Inr (Some
                 [\<lparr> ipLow = 0, ipLowStr = ''0.0.0.0'',
                     ipHigh = 4294967295, ipHighStr = ''255.255.255.255'',
                     prefixMask = 0, prefixMaskStr = ''0.0.0.0'', prefixSize = 0,
                     invertedMask = 4294967295, invertedMaskStr = ''255.255.255.255'',
                     invertedSize = 32 \<rparr>]))"
proof -
  from toDecimal_range [OF assms(1)] toDecimal_range [OF assms(2)] assms(3)
  have r: "0 \<le> s" "s \<le> e + 1" "e < 2 ^ 32" by simp_all
  from calculate_loop_covers [OF r] obtain bs where
    bs: "calculate_loop s e [] = Some (Inr (Some bs))" "covers s e bs"
    by (metis append_Nil)
  have ne: "bs \<noteq> []"
    using bs(2) assms(3) by (rule covers_nonempty)
  have l: "ipHigh (last bs) = e"
    using bs(2) ne by (rule covers_last)
  have "calculate ipStart ipEnd = Some (Inr (Some bs))"
    using assms bs(1) by (simp add: calculate_def)
  moreover have "calculate_loop (ipHigh (last bs) + 1) e bs = Some (Inr (Some bs))"
    using l by (simp add: calculate_loop_done)
  ultimately have 1: "\<exists>bs. calculate ipStart ipEnd = Some (Inr (Some bs))
            \<and> bs \<noteq> []
            \<and> ipHigh (last bs) + 1 = e + 1
            \<and> \<not> ipHigh (last bs) + 1 \<le> e
            \<and> calculate_loop (ipHigh (last bs) + 1) e bs = Some (Inr (Some bs))"
    using ne l by auto
  have 2: "calculate_loop 4294967296 4294967295 rangeCollection
             = Some (Inr (Some rangeCollection))"
    by (simp add: calculate_loop_done)
  have 3: "calculate (JStr ''0.0.0.0'') (JStr ''255.255.255.255'')
             = Some (Inr (Some
                 [\<lparr> ipLow = 0, ipLowStr = ''0.0.0.0'',
                     ipHigh = 4294967295, ipHighStr = ''255.255.255.255'',
                     prefixMask = 0, prefixMaskStr = ''0.0.0.0'', prefixSize = 0,
                     invertedMask = 4294967295, invertedMaskStr = ''255.255.255.255'',
                     invertedSize = 32 \<rparr>]))"
    by code_simp
  from 1 2 3 show ?thesis by blast
qed

theorem calculate_terminates_witness:
  "toDecimal (JStr ''255.255.255.250'') = Inr 4294967290
   \<and> toDecimal (JNum 4294967295) = Inr 4294967295
   \<and> (4294967290 :: int) \<le> 4294967295
   \<and> (\<exists>bs. calculate (JStr ''255.255.255.250'') (JNum 4294967295) = Some (Inr (Some bs))
            \<and> bs \<noteq> []
            \<and> ipHigh (last bs) + 1 = 4294967295 + 1
            \<and> \<not> ipHigh (last bs) + 1 \<le> 4294967295
            \<and> calculate_loop (ipHigh (last bs) + 1) 4294967295 bs = Some (Inr (Some bs)))"
proof -
  have h1: "toDecimal (JStr ''255.255.255.250'') = Inr 4294967290" by code_simp
  have h2: "toDecimal (JNum 4294967295) = Inr 4294967295" by code_simp
  have h3: "(4294967290 :: int) \<le> 4294967295" by simp
  from calculate_terminates [OF h1 h2 h3, of "[]"] h1 h2 h3 show ?thesis by blast
qed

text \<open>
  C5 fails as stated: the range from 1 to 4294967294 is decomposed into 62 blocks, and the
  search for the block at 0 with the end 4294967295 examines all 33 prefix sizes from 32
  down to 0.
\<close>

theorem calculate_block_count_counterexample:
  "toDecimal (JNum 1) = Inr 1 \<and> toDecimal (JNum 4294967294) = Inr 4294967294
   \<and> map_option (map_sum id (map_option length)) (calculate (JNum 1) (JNum 4294967294))
       = Some (Inr (Some 62))
   \<and> getOptimalRange_rounds 0 4294967295 32 = 33"
proof -
  have h1: "toDecimal (JNum 1) = Inr 1" by code_simp
  have h2: "toDecimal (JNum 4294967294) = Inr 4294967294" by code_simp
  have "calculate_loop 1 4294967294 [] = Some (Inr (Some ([] @ blocks 1 4294967294)))"
    by (rule calculate_loop_blocks) simp_all
  then have "calculate (JNum 1) (JNum 4294967294) = Some (Inr (Some (blocks 1 4294967294)))"
    using h1 h2 by (simp add: calculate_def)
  then have c: "map_option (map_sum id (map_option length))
      (calculate (JNum 1) (JNum 4294967294)) = Some (Inr (Some 62))"
    by (simp add: blocks_worst_case)
  have r: "getOptimalRange_rounds 0 4294967295 32 = 33" by code_simp
  from h1 h2 c r show ?thesis by blast
qed

text \<open>
  C5, amended.  For every pair of valid addresses with values \<open>s \<le> e\<close>, the list that
  \<open>calculate\<close> returns contains at most 62 blocks, and the search that finds each of its
  blocks examines at most 33 candidate prefix sizes.
\<close>

theorem calculate_block_count:
  assumes "toDecimal ipStart = Inr s" "toDecimal ipEnd = Inr e" "s \<le> e"
  shows "\<exists>bs. calculate ipStart ipEnd = Some (Inr (Some bs))
          \<and> length bs \<le> 62
          \<and> (\<forall>b\<in>set bs. getOptimalRange (ipLow b) e = Inr (Some b)
                \<and> getOptimalRange_rounds (ipLow b) e 32 \<le> 33)"
proof -
  from toDecimal_range [OF assms(1)] toDecimal_range [OF assms(2)] assms(3)
  have r: "0 \<le> s" "s \<le> e + 1" "e < 2 ^ 32" by simp_all
  from calculate_loop_covers [OF r] obtain bs where
    bs: "calculate_loop s e [] = Some (Inr (Some bs))"
        "\<forall>b\<in>set bs. getOptimalRange (ipLow b) e = Inr (Some b)"
    by (metis append_Nil)
  have c: "calculate ipStart ipEnd = Some (Inr (Some bs))"
    using assms bs(1) by (simp add: calculate_def)
  have "bs = blocks s e"
    using bs(1) by (simp add: blocks_def)
  then have l: "length bs \<le> 62"
    using blocks_length_bound [OF r(1) assms(3) r(3)] by simp
  have "getOptimalRange_rounds a e 32 \<le> 33" for a
    using getOptimalRange_rounds_bound [of a e 32] by simp
  with c l bs(2) show ?thesis by blast
qed

theorem calculate_block_count_witness:
  "toDecimal (JStr ''10.0.0.0'') = Inr 167772160
   \<and> toDecimal (JStr ''10.0.1.1'') = Inr 167772417
   \<and> (167772160 :: int) \<le> 167772417
   \<and> (\<exists>bs. calculate (JStr ''10.0.0.0'') (JStr ''10.0.1.1'') = Some (Inr (Some bs))
          \<and> length bs \<le> 62
          \<and> (\<forall>b\<in>set bs. getOptimalRange (ipLow b) 167772417 = Inr (Some b)
                \<and> getOptimalRange_rounds (ipLow b) 167772417 32 \<le> 33))"
proof -
  have h1: "toDecimal (JStr ''10.0.0.0'') = Inr 167772160" by code_simp
  have h2: "toDecimal (JStr ''10.0.1.1'') = Inr 167772417" by code_simp
  have h3: "(167772160 :: int) \<le> 167772417" by simp
  from calculate_block_count [OF h1 h2 h3] h1 h2 h3 show ?thesis by blast
qed

text \<open>
  C9.  For all integers \<open>0 \<le> ipNum \<le> ipEndNum \<le> 4294967295\<close>, the candidate of
  prefix size 32 begins at \<open>ipNum\<close> and does not exceed \<open>ipEndNum\<close>, so
  \<open>getOptimalRange\<close> returns a block and never \<open>null\<close>, and the loop of
  \<open>calculate\<close> never returns \<open>null\<close> from such a cursor.
\<close>

theorem getOptimalRange_never_null:
  assumes "0 \<le> ipNum" "ipNum \<le> ipEndNum" "ipEndNum \<le> 4294967295"
  shows "(\<exists>m. getMaskRange ipNum 32 = Inr m \<and> ipLow m = ipNum \<and> ipHigh m \<le> ipEndNum)
         \<and> (\<exists>r. getOptimalRange ipNum ipEndNum = Inr (Some r))
         \<and> getOptimalRange ipNum ipEndNum \<noteq> Inr None
         \<and> calculate_loop ipNum ipEndNum rangeCollection \<noteq> Some (Inr None)"
proof -
  from assms have e: "ipEndNum < 2 ^ 32" and s: "ipNum \<le> ipEndNum + 1" by simp_all
  have "fits ipNum ipEndNum 32"
    using assms(1,2) e by (rule fits_32)
  then have a: "\<exists>m. getMaskRange ipNum 32 = Inr m \<and> ipLow m = ipNum \<and> ipHigh m \<le> ipEndNum"
    by (auto simp: fits_def split: sum.splits)
  from getOptimalRange_result [OF assms(1,2) e]
  obtain r where r: "getOptimalRange ipNum ipEndNum = Inr (Some r)" by blast
  from calculate_loop_covers [OF assms(1) s e]
  have "calculate_loop ipNum ipEndNum rangeCollection \<noteq> Some (Inr None)" by auto
  with a r show ?thesis by simp
qed

theorem getOptimalRange_never_null_witness:
  "(0::int) \<le> 5 \<and> (5::int) \<le> 5 \<and> (5::int) \<le> 4294967295
   \<and> (\<exists>m. getMaskRange 5 32 = Inr m \<and> ipLow m = 5 \<and> ipHigh m \<le> 5)
   \<and> (\<exists>r. getOptimalRange 5 5 = Inr (Some r))
   \<and> getOptimalRange 5 5 \<noteq> Inr None
   \<and> calculate_loop 5 5 [] \<noteq> Some (Inr None)"
  using getOptimalRange_never_null [of 5 5 "[]"] by simp

section \<open>Properties of the address conversions\<close>

text \<open>
  C4 fails as stated: \<open>isIp\<close> accepts \<open>10.0.0.01\<close>, \<open>toDecimal\<close> maps it to
  167772161, and \<open>toString\<close> renders that number as \<open>10.0.0.1\<close>.
\<close>

theorem toString_toDecimal_roundtrip_counterexample:
  "isIp (JStr ''10.0.0.01'')
   \<and> toDecimal (JStr ''10.0.0.01'') = Inr 167772161
   \<and> toString (JNum 167772161) = Inr ''10.0.0.1''
   \<and> ''10.0.0.1'' \<noteq> ''10.0.0.01''"
  by code_simp

text \<open>
  C4, amended.  For every string \<open>s\<close> that \<open>isIp\<close> accepts, \<open>toDecimal\<close> returns a
  number, and \<open>toString\<close> of that number is \<open>s\<close> again exactly when \<open>s\<close> is in
  canonical form, that is, when no field of \<open>s\<close> has a superfluous leading zero.
\<close>

theorem toString_toDecimal_roundtrip:
  assumes "isIp (JStr s)"
  shows "\<exists>n. toDecimal (JStr s) = Inr n \<and> (toString (JNum n) = Inr s \<longleftrightarrow> canonical_ip s)"
  using assms by (rule roundtrip_iff_canonical)

theorem toString_toDecimal_roundtrip_witness:
  "isIp (JStr ''10.0.1.255'') \<and> canonical_ip ''10.0.1.255''
   \<and> (\<exists>n. toDecimal (JStr ''10.0.1.255'') = Inr n
          \<and> (toString (JNum n) = Inr ''10.0.1.255'' \<longleftrightarrow> canonical_ip ''10.0.1.255''))"
proof -
  have h: "isIp (JStr ''10.0.1.255'')" by code_simp
  have c: "canonical_ip ''10.0.1.255''" by code_simp
  from toString_toDecimal_roundtrip [OF h] h c show ?thesis by blast
qed

text \<open>
  C10.  Every string that \<open>isIp\<close> accepts is mapped by \<open>toDecimal\<close> to the same
  number as its canonical form, the string that \<open>toString\<close> renders for that number,
  which is accepted too.  \<open>isIp\<close> accepts strings whose octets carry leading zeros: for all
  octets \<open>a\<close>, \<open>b\<close>, \<open>c\<close>, \<open>d\<close> up to 255, written in decimal behind any number of
  zeros that keeps a field within three digits, the string is accepted and \<open>toDecimal\<close>
  maps it to the same number as the canonical string without the zeros, which is what
  \<open>toString\<close> renders for that number; whenever a zero was added, the rendering differs
  from the string.  In particular \<open>001.002.003.004\<close> is accepted and maps to the number
  of \<open>1.2.3.4\<close>, and there is an accepted string whose rendering after the conversion
  differs from it.
\<close>

theorem isIp_accepts_leading_zeros:
  assumes "a \<le> 255" "b \<le> 255" "c \<le> 255" "d \<le> 255"
    and "ka + length (decimal_string a) \<le> 3" "kb + length (decimal_string b) \<le> 3"
        "kc + length (decimal_string c) \<le> 3" "kd + length (decimal_string d) \<le> 3"
  shows "(\<forall>s. isIp (JStr s) \<longrightarrow>
            (\<exists>n s'. toDecimal (JStr s) = Inr n \<and> toString (JNum n) = Inr s'
               \<and> canonical_ip s' \<and> isIp (JStr s') \<and> toDecimal (JStr s') = Inr n))
         \<and> isIp (JStr ((replicate ka CHR ''0'' @ decimal_string a) @ ''.''
                    @ (replicate kb CHR ''0'' @ decimal_string b) @ ''.''
                    @ (replicate kc CHR ''0'' @ decimal_string c) @ ''.''
                    @ (replicate kd CHR ''0'' @ decimal_string d)))
         \<and> toDecimal (JStr ((replicate ka CHR ''0'' @ decimal_string a) @ ''.''
                    @ (replicate kb CHR ''0'' @ decimal_string b) @ ''.''
                    @ (replicate kc CHR ''0'' @ decimal_string c) @ ''.''
                    @ (replicate kd CHR ''0'' @ decimal_string d)))
             = Inr (((int a * 256 + int b) * 256 + int c) * 256 + int d)
         \<and> isIp (JStr (decimal_string a @ ''.'' @ decimal_string b @ ''.''
                    @ decimal_string c @ ''.'' @ decimal_string d))
         \<and> canonical_ip (decimal_string a @ ''.'' @ decimal_string b @ ''.''
                    @ decimal_string c @ ''.'' @ decimal_string d)
         \<and> toDecimal (JStr (decimal_string a @ ''.'' @ decimal_string b @ ''.''
                    @ decimal_string c @ ''.'' @ decimal_string d))
             = Inr (((int a * 256 + int b) * 256 + int c) * 256 + int d)
         \<and> toString (JNum (((int a * 256 + int b) * 256 + int c) * 256 + int d))
             = Inr (decimal_string a @ ''.'' @ decimal_string b @ ''.''
                    @ decimal_string c @ ''.'' @ decimal_string d)
         \<and> (0 < ka + kb + kc + kd \<longrightarrow>
               toString (JNum (((int a * 256 + int b) * 256 + int c) * 256 + int d))
               \<noteq> Inr ((replicate ka CHR ''0'' @ decimal_string a) @ ''.''
                    @ (replicate kb CHR ''0'' @ decimal_string b) @ ''.''
                    @ (replicate kc CHR ''0'' @ decimal_string c) @ ''.''
                    @ (replicate kd CHR ''0'' @ decimal_string d)))
         \<and> isIp (JStr ''001.002.003.004'')
         \<and> toDecimal (JStr ''001.002.003.004'') = Inr 16909060
         \<and> toDecimal (JStr ''1.2.3.4'') = Inr 16909060
         \<and> toString (JNum 16909060) = Inr ''1.2.3.4''
         \<and> (\<exists>s n. isIp (JStr s) \<and> toDecimal (JStr s) = Inr n \<and> toString (JNum n) \<noteq> Inr s)"
proof -
  have 1: "isIp (JStr ''001.002.003.004'')" by code_simp
  have 2: "toDecimal (JStr ''001.002.003.004'') = Inr 16909060" by code_simp
  have 3: "toDecimal (JStr ''1.2.3.4'') = Inr 16909060" by code_simp
  have 4: "toString (JNum 16909060) = Inr ''1.2.3.4''" by code_simp
  have "toString (JNum 16909060) \<noteq> Inr ''001.002.003.004''"
    unfolding 4 by simp
  with 1 2 have 5: "\<exists>s n. isIp (JStr s) \<and> toDecimal (JStr s) = Inr n \<and> toString (JNum n) \<noteq> Inr s"
    by blast
  have 6: "\<forall>s. isIp (JStr s) \<longrightarrow>
            (\<exists>n s'. toDecimal (JStr s) = Inr n \<and> toString (JNum n) = Inr s'
               \<and> canonical_ip s' \<and> isIp (JStr s') \<and> toDecimal (JStr s') = Inr n)"
    using accepted_canonical by blast
  from leading_zeros_accepted [OF assms] 1 2 3 4 5 6 show ?thesis
    by blast
qed

theorem isIp_accepts_leading_zeros_witness:
  "(10 :: nat) \<le> 255 \<and> (9 :: nat) \<le> 255 \<and> (77 :: nat) \<le> 255 \<and> (8 :: nat) \<le> 255
   \<and> 1 + length (decimal_string 10) \<le> 3 \<and> 2 + length (decimal_string 9) \<le> 3
   \<and> 1 + length (decimal_string 77) \<le> 3 \<and> 2 + length (decimal_string 8) \<le> 3
   \<and> isIp (JStr ''010.009.077.008'')
   \<and> toDecimal (JStr ''010.009.077.008'') = Inr 168381704
   \<and> isIp (JStr ''10.9.77.8'')
   \<and> canonical_ip ''10.9.77.8''
   \<and> toDecimal (JStr ''10.9.77.8'') = Inr 168381704
   \<and> toString (JNum 168381704) = Inr ''10.9.77.8''
   \<and> toString (JNum 168381704) \<noteq> Inr ''010.009.077.008''
   \<and> (\<exists>n s'. toDecimal (JStr ''010.009.077.008'') = Inr n \<and> toString (JNum n) = Inr s'
          \<and> canonical_ip s' \<and> isIp (JStr s') \<and> toDecimal (JStr s') = Inr n)"
proof -
  have d: "decimal_string 10 = ''10''" "decimal_string 9 = ''9''"
    "decimal_string 77 = ''77''" "decimal_string 8 = ''8''"
    by code_simp+
  have v: "(10 :: nat) \<le> 255" "(9 :: nat) \<le> 255" "(77 :: nat) \<le> 255" "(8 :: nat) \<le> 255"
    by simp_all
  have l: "1 + length (decimal_string 10) \<le> 3" "2 + length (decimal_string 9) \<le> 3"
    "1 + length (decimal_string 77) \<le> 3" "2 + length (decimal_string 8) \<le> 3"
    by (simp_all add: d)
  note t = isIp_accepts_leading_zeros [OF v l]
  have p: "isIp (JStr ''010.009.077.008'')
      \<and> toDecimal (JStr ''010.009.077.008'') = Inr 168381704
      \<and> isIp (JStr ''10.9.77.8'')
      \<and> canonical_ip ''10.9.77.8''
      \<and> toDecimal (JStr ''10.9.77.8'') = Inr 168381704
      \<and> toString (JNum 168381704) = Inr ''10.9.77.8''
      \<and> toString (JNum 168381704) \<noteq> Inr ''010.009.077.008''"
    using t [THEN conjunct2] by (simp add: d numeral_2_eq_2)
  then have "isIp (JStr ''010.009.077.008'')" by simp
  with t [THEN conjunct1]
  have g: "\<exists>n s'. toDecimal (JStr ''010.009.077.008'') = Inr n \<and> toString (JNum n) = Inr s'
          \<and> canonical_ip s' \<and> isIp (JStr s') \<and> toDecimal (JStr s') = Inr n"
    by blast
  from v l p g show ?thesis by blast
qed

section \<open>Properties of the mask arithmetic\<close>

text \<open>
  C6.  For every address \<open>ipNum\<close> from 0 to 4294967295 and every prefix size from 0 to
  32, \<open>getMaskRange\<close> returns a block with \<open>ipLow \<le> ipHigh\<close>, of exactly
  \<open>2 ^ (32 - prefixSize)\<close> addresses, whose \<open>ipLow\<close> is aligned to the prefix mask,
  and whose prefix mask and inverted mask are disjoint and together are \<open>0xFFFFFFFF\<close>.
\<close>

theorem getMaskRange_invariants:
  assumes "0 \<le> ipNum" "ipNum \<le> 4294967295" "0 \<le> pSize" "pSize \<le> 32"
  shows "\<exists>r. getMaskRange ipNum pSize = Inr r
            \<and> ipLow r \<le> ipHigh r
            \<and> ipHigh r - ipLow r + 1 = 2 ^ nat (32 - pSize)
            \<and> ipLow r AND prefixMask r = ipLow r
            \<and> prefixMask r OR invertedMask r = 4294967295
            \<and> prefixMask r AND invertedMask r = 0"
proof -
  define k where "k = nat (32 - pSize)"
  have k: "k \<le> 32" using assms by (simp add: k_def)
  have a: "ipNum < 2 ^ 32" using assms by simp
  from getMaskRange_fields [OF assms(1) a assms(3,4)] obtain r where
    r: "getMaskRange ipNum pSize = Inr r"
       "ipLow r = ipNum - ipNum mod 2 ^ k"
       "ipHigh r = ipNum - ipNum mod 2 ^ k + 2 ^ k - 1"
       "prefixMask r = 2 ^ 32 - 2 ^ k"
       "invertedMask r = 2 ^ k - 1"
    unfolding k_def by blast
  have kpos: "(0::int) < 2 ^ k" by simp
  have 1: "ipLow r \<le> ipHigh r" using r(2,3) kpos by simp
  have 2: "ipHigh r - ipLow r + 1 = 2 ^ k" using r(2,3) by simp
  have 3: "ipLow r AND prefixMask r = ipLow r"
    unfolding r(2,4) using assms(1) a k by (rule aligned_low_and)
  have 4: "prefixMask r OR invertedMask r = 4294967295"
    unfolding r(4,5) using mask_bits(1) [OF k] by simp
  have 5: "prefixMask r AND invertedMask r = 0"
    unfolding r(4,5) using k by (rule mask_bits(2))
  from r(1) 1 2 3 4 5 show ?thesis
    unfolding k_def by blast
qed

theorem getMaskRange_invariants_witness:
  "(0::int) \<le> 167772205 \<and> (167772205::int) \<le> 4294967295 \<and> (0::int) \<le> 24 \<and> (24::int) \<le> 32
   \<and> (\<exists>r. getMaskRange 167772205 24 = Inr r
            \<and> ipLow r \<le> ipHigh r
            \<and> ipHigh r - ipLow r + 1 = 2 ^ nat (32 - 24)
            \<and> ipLow r AND prefixMask r = ipLow r
            \<and> prefixMask r OR invertedMask r = 4294967295
            \<and> prefixMask r AND invertedMask r = 0)"
  using getMaskRange_invariants [of 167772205 24] by simp




text \<open>
  C8.  For every valid address and every valid mask value \<open>m\<close>, contiguous or not,
  \<open>calculateCIDRPrefix\<close> returns a block and no error.  Its prefix size is the largest
  \<open>p\<close> from 0 to 32 with \<open>(m & prefixMask(p)) == prefixMask(p)\<close>, that is the length of
  the run of one-bits at the top of \<open>m\<close>: the bits 31 down to \<open>32 - p\<close> are set and
  the next bit is not.  Nothing is required of the bits below.
\<close>

theorem calculateCIDRPrefix_leading_ones:
  assumes "toDecimal ip = Inr ipNum" "toDecimal subnetMask = Inr m"
  shows "\<exists>r. calculateCIDRPrefix ip subnetMask = Inr (Some r)
            \<and> getMaskRange ipNum (prefixSize r) = Inr r
            \<and> 0 \<le> prefixSize r \<and> prefixSize r \<le> 32
            \<and> js_ushr0 (js_and m (getPrefixMask (prefixSize r))) = getPrefixMask (prefixSize r)
            \<and> (\<forall>p. 0 \<le> p \<and> p \<le> 32
                  \<and> js_ushr0 (js_and m (getPrefixMask p)) = getPrefixMask p
                  \<longrightarrow> p \<le> prefixSize r)
            \<and> (\<forall>i. i < nat (prefixSize r) \<longrightarrow> bit m (31 - i))
            \<and> (prefixSize r < 32 \<longrightarrow> \<not> bit m (31 - nat (prefixSize r)))"
  using assms by (rule calculateCIDRPrefix_result)

theorem calculateCIDRPrefix_leading_ones_witness:
  "toDecimal (JStr ''10.0.0.45'') = Inr 167772205
   \<and> toDecimal (JStr ''255.255.0.255'') = Inr 4294902015
   \<and> map_sum id (map_option prefixSize)
        (calculateCIDRPrefix (JStr ''10.0.0.45'') (JStr ''255.255.0.255'')) = Inr (Some 16)
   \<and> (\<exists>r. calculateCIDRPrefix (JStr ''10.0.0.45'') (JStr ''255.255.0.255'') = Inr (Some r)
            \<and> getMaskRange 167772205 (prefixSize r) = Inr r
            \<and> 0 \<le> prefixSize r \<and> prefixSize r \<le> 32
            \<and> js_ushr0 (js_and 4294902015 (getPrefixMask (prefixSize r)))
                = getPrefixMask (prefixSize r)
            \<and> (\<forall>p. 0 \<le> p \<and> p \<le> 32
                  \<and> js_ushr0 (js_and 4294902015 (getPrefixMask p)) = getPrefixMask p
                  \<longrightarrow> p \<le> prefixSize r)
            \<and> (\<forall>i. i < nat (prefixSize r) \<longrightarrow> bit (4294902015 :: int) (31 - i))
            \<and> (prefixSize r < 32 \<longrightarrow> \<not> bit (4294902015 :: int) (31 - nat (prefixSize r))))"
proof -
  have h1: "toDecimal (JStr ''10.0.0.45'') = Inr 167772205" by code_simp
  have h2: "toDecimal (JStr ''255.255.0.255'') = Inr 4294902015" by code_simp
  have v: "map_sum id (map_option prefixSize)
        (calculateCIDRPrefix (JStr ''10.0.0.45'') (JStr ''255.255.0.255'')) = Inr (Some 16)"
    by code_simp
  from calculateCIDRPrefix_leading_ones [OF h1 h2] h1 h2 v show ?thesis by blast
qed

end
